theory Spec2Isabelle
  imports Complex_Main "HOL-Library.Char_ord" "HOL-Library.List_Lexorder"
begin

section \<open>Data model\<close>

text \<open>
  The exceptions that the modelled code of \<^verbatim>\<open>medacy/model/model.py\<close> and
  \<^verbatim>\<open>medacy/pipeline_components/embeddings/embedding_component.py\<close> can raise.
  \<open>ExternalError\<close> stands for an exception raised inside an external collaborator
  (the fold splitter, the learner, the file system).
\<close>

datatype error =
    ValueError
  | TypeError
  | AssertionError
  | IndexError
  | KeyError
  | AttributeError
  | StatisticsError
  | UnboundLocalError
  | ZeroDivisionError
  | ExternalError

type_synonym span = "int \<times> int"

type_synonym tagged_span = "string \<times> int \<times> int"

text \<open>
  An element of \<^verbatim>\<open>X_data\<close> is a triple: \<^verbatim>\<open>x[0]\<close> the per-token feature
  dictionaries, \<^verbatim>\<open>x[1]\<close> the per-token spans, \<^verbatim>\<open>x[2]\<close> the file name.
\<close>

type_synonym 'f sequence = "'f list \<times> span list \<times> string"

type_synonym by_document = "string \<rightharpoonup> tagged_span list"

section \<open>Python list indexing\<close>

text \<open>\<^verbatim>\<open>xs[i]\<close> for a non-negative index: IndexError when out of range.\<close>

definition get :: "'a list \<Rightarrow> nat \<Rightarrow> error + 'a" where
  "get xs i = (if i < length xs then Inr (xs ! i) else Inl IndexError)"

section \<open>Span reconstruction in cross_validate\<close>

text \<open>
  The inner loop (model.py, lines 243-244 and 269-270):
  \<^verbatim>\<open>while i < len(groundtruth) - 1 and groundtruth[i + 1] == entity: i += 1\<close>.
  It returns the value of \<^verbatim>\<open>i\<close> when the loop stops.
\<close>

function inside_entity :: "string list \<Rightarrow> string \<Rightarrow> nat \<Rightarrow> nat" where
  "inside_entity labels entity i =
     (if int i < int (length labels) - 1 \<and> labels ! (i + 1) = entity
      then inside_entity labels entity (i + 1)
      else i)"
  by pat_completeness auto
termination
  by (relation "measure (\<lambda>(labels, entity, i). length labels - i)") auto

lemma inside_entity_ge: "i \<le> inside_entity labels entity i"
proof (induction labels entity i rule: inside_entity.induct)
  case (1 labels entity i)
  show ?case
  proof (cases "int i < int (length labels) - 1 \<and> labels ! (i + 1) = entity")
    case True
    with "1" have "i + 1 \<le> inside_entity labels entity (i + 1)" by simp
    with True show ?thesis by (subst inside_entity.simps) simp
  next
    case False
    then show ?thesis by (subst inside_entity.simps) simp
  qed
qed

text \<open>
  The outer loop (model.py, lines 234-247 for the gold labels, lines 260-273 for the
  predicted labels; the two copies differ only in the names of the label list and of the
  dictionary that is appended to):
  \<^verbatim>\<open>
  while i < len(groundtruth):
      if groundtruth[i] == 'O':
          i += 1
          continue
      entity = groundtruth[i]
      document = document_indices[i]
      first_start, first_end = span_indices[i]
      while i < len(groundtruth) - 1 and groundtruth[i + 1] == entity:
          i += 1
      last_start, last_end = span_indices[i]
      groundtruth_by_document[document].append((entity, first_start, last_end))
      i += 1
  \<close>
\<close>

function merge_loop ::
  "string list \<Rightarrow> string list \<Rightarrow> span list \<Rightarrow> nat \<Rightarrow> by_document \<Rightarrow> error + by_document" where
  "merge_loop labels document_indices span_indices i by_doc =
     (if i < length labels then
        if labels ! i = ''O'' then
          merge_loop labels document_indices span_indices (i + 1) by_doc
        else
          let entity = labels ! i in
          case get document_indices i of
            Inl e \<Rightarrow> Inl e
          | Inr document \<Rightarrow>
          (case get span_indices i of
            Inl e \<Rightarrow> Inl e
          | Inr (first_start, first_end) \<Rightarrow>
          (let j = inside_entity labels entity i in
           case get span_indices j of
            Inl e \<Rightarrow> Inl e
          | Inr (last_start, last_end) \<Rightarrow>
          (case by_doc document of
            None \<Rightarrow> Inl KeyError
          | Some spans \<Rightarrow>
              merge_loop labels document_indices span_indices (j + 1)
                (by_doc(document \<mapsto> spans @ [(entity, first_start, last_end)])))))
      else Inr by_doc)"
  by pat_completeness auto
termination
proof (relation "measure (\<lambda>(labels, document_indices, span_indices, i, by_doc). length labels - i)")
  show "wf (measure (\<lambda>(labels, document_indices, span_indices, i, by_doc). length labels - i))"
    by simp
next
  fix labels :: "string list" and document_indices :: "string list"
    and span_indices :: "span list" and i :: nat and by_doc :: by_document
  assume "i < length labels"
  then show "((labels, document_indices, span_indices, i + 1, by_doc),
              (labels, document_indices, span_indices, i, by_doc))
             \<in> measure (\<lambda>(labels, document_indices, span_indices, i, by_doc). length labels - i)"
    by simp
next
  fix labels :: "string list" and document_indices :: "string list"
    and span_indices :: "span list" and i :: nat and by_doc :: by_document
    and j :: nat and by_doc' :: by_document and entity :: string
  assume lt: "i < length labels" and j: "j = inside_entity labels entity i"
  have "i \<le> j" unfolding j by (rule inside_entity_ge)
  with lt show "((labels, document_indices, span_indices, j + 1, by_doc'),
              (labels, document_indices, span_indices, i, by_doc))
             \<in> measure (\<lambda>(labels, document_indices, span_indices, i, by_doc). length labels - i)"
    by simp
qed

declare merge_loop.simps [simp del] inside_entity.simps [simp del]

text \<open>
  Flattening of a fold's test sequences (model.py, lines 226-231 and 252-257):
  \<^verbatim>\<open>
  for sequence in X_test:
      document_indices += [sequence[2] for x in range(len(sequence[0]))]
      span_indices += [element for element in sequence[1]]
  groundtruth = [element for sentence in y_test for element in sentence]
  \<close>
\<close>

definition document_indices_of :: "'f sequence list \<Rightarrow> string list" where
  "document_indices_of X_test =
     concat (map (\<lambda>sequence. replicate (length (fst sequence)) (snd (snd sequence))) X_test)"

definition span_indices_of :: "'f sequence list \<Rightarrow> span list" where
  "span_indices_of X_test = concat (map (\<lambda>sequence. fst (snd sequence)) X_test)"

definition reconstruct ::
  "'f sequence list \<Rightarrow> string list list \<Rightarrow> by_document \<Rightarrow> error + by_document" where
  "reconstruct X_test labels by_doc =
     merge_loop (concat labels) (document_indices_of X_test) (span_indices_of X_test) 0 by_doc"

section \<open>The tagset\<close>

text \<open>
  model.py, lines 190-196:
  \<^verbatim>\<open>
  tagset = set()
  for tags in Y_data:
      for tag in tags:
          if tag != 'O' and tag != '':
              tagset.add(tag)
  tagset = list(tagset)
  tagset.sort()
  \<close>
  Python compares strings lexicographically by code point, which is the order of
  \<^typ>\<open>char list\<close> here.
\<close>

definition tagset_of :: "string list list \<Rightarrow> string list" where
  "tagset_of Y_data =
     sorted_list_of_set
       (foldl (\<lambda>tagset tags.
                 foldl (\<lambda>tagset tag.
                          if tag \<noteq> ''O'' \<and> tag \<noteq> '''' then insert tag tagset else tagset)
                   tagset tags)
          {} Y_data)"

section \<open>External collaborators and the state\<close>

record data_file =
  file_name :: string
  raw_path :: string

record dataset =
  data_directory :: string
  is_metamapped :: bool
  data_files :: "data_file list"

text \<open>
  The values that the parameters \<^verbatim>\<open>prediction_directory\<close> and
  \<^verbatim>\<open>groundtruth_directory\<close> take: \<^verbatim>\<open>None\<close> (the default), a string, or
  \<^verbatim>\<open>True\<close>/\<^verbatim>\<open>False\<close> (the docstring allows \<^verbatim>\<open>True\<close>).
\<close>

datatype directory_arg = NoneDir | StrDir string | BoolDir bool

fun truthy :: "directory_arg \<Rightarrow> bool" where
  "truthy NoneDir = False"
| "truthy (StrDir s) = (s \<noteq> [])"
| "truthy (BoolDir b) = b"

text \<open>Calls into external collaborators, in the order in which they are made.\<close>

datatype call =
    ExtractFeatures string
  | Split
  | Fit nat
  | Predict nat
  | Score "string list"

record scores =
  recall :: real
  precision :: real
  f1 :: real

type_synonym fold_statistics = "string \<rightharpoonup> scores"

text \<open>
  The collaborators that \<^verbatim>\<open>cross_validate\<close> calls and whose code is outside the
  modelled files: the feature extraction of the pipeline on one data file, the stratified
  splitter \<^verbatim>\<open>SequenceStratifiedKFold(folds)(X, Y)\<close>, the learner of the pipeline
  (\<^verbatim>\<open>fit\<close> gives the trained learner, \<^verbatim>\<open>predict\<close> uses it), the three weighted
  metrics of \<^verbatim>\<open>sklearn_crfsuite.metrics\<close>, the final rounding \<open>to_float\<close> of
  \<^verbatim>\<open>statistics.mean\<close> (which sums exactly and rounds once), and the text of the file
  at a path (\<open>None\<close> when it cannot be opened).
\<close>

record ('f, 'l) env =
  extract_features :: "data_file \<Rightarrow> bool \<Rightarrow> error + ('f sequence list \<times> string list list)"
  split :: "int \<Rightarrow> 'f sequence list \<Rightarrow> string list list \<Rightarrow> error + (nat list \<times> nat list) list"
  fit :: "'f list list \<Rightarrow> string list list \<Rightarrow> error + 'l"
  predict :: "'l \<Rightarrow> 'f list list \<Rightarrow> error + string list list"
  flat_recall_score :: "string list list \<Rightarrow> string list list \<Rightarrow> string list \<Rightarrow> real"
  flat_precision_score :: "string list list \<Rightarrow> string list list \<Rightarrow> string list \<Rightarrow> real"
  flat_f1_score :: "string list list \<Rightarrow> string list list \<Rightarrow> string list \<Rightarrow> real"
  to_float :: "real \<Rightarrow> real"
  raw_text :: "string \<rightharpoonup> string"

text \<open>
  The state that the modelled methods read and write: the attributes \<^verbatim>\<open>X_data\<close> and
  \<^verbatim>\<open>y_data\<close> of the model (\<open>None\<close> is Python's \<^verbatim>\<open>None\<close>), the attribute
  \<^verbatim>\<open>entities\<close> of the pipeline, the directories and annotation files of the file
  system (a written annotation file holds the document text and the tuples it was built
  from), and the calls made so far.
\<close>

record 'f state =
  X_data :: "'f sequence list option"
  y_data :: "string list list option"
  entities :: "string list option"
  directories :: "string set"
  ann_files :: "string \<rightharpoonup> (string \<times> tagged_span list)"
  calls :: "call list"

section \<open>preprocess\<close>

text \<open>
  The synchronous branch (model.py, lines 68-73): each file is extracted and its features
  and labels are appended at once; an exception leaves what was appended before it.
\<close>

fun extract_all ::
  "('f, 'l) env \<Rightarrow> bool \<Rightarrow> data_file list \<Rightarrow> 'f state \<Rightarrow> (error + unit) \<times> 'f state" where
  "extract_all env mm [] st = (Inr (), st)"
| "extract_all env mm (data_file # rest) st =
     (let st1 = st\<lparr>calls := calls st @ [ExtractFeatures (file_name data_file)]\<rparr> in
      case extract_features env data_file mm of
        Inl e \<Rightarrow> (Inl e, st1)
      | Inr (features, labels) \<Rightarrow>
          (case (X_data st1, y_data st1) of
             (Some X, Some y) \<Rightarrow>
               extract_all env mm rest (st1\<lparr>X_data := Some (X @ features), y_data := Some (y @ labels)\<rparr>)
           | _ \<Rightarrow> (Inl TypeError, st1)))"

text \<open>
  The asynchronous branch (lines 51-64): every file is submitted to the pool first, then
  the results are read in the order of the dataset.
\<close>

fun gather ::
  "(error + ('f sequence list \<times> string list list)) list \<Rightarrow> 'f state \<Rightarrow> (error + unit) \<times> 'f state" where
  "gather [] st = (Inr (), st)"
| "gather (r # rest) st =
     (case r of
        Inl e \<Rightarrow> (Inl e, st)
      | Inr (X', y') \<Rightarrow>
          (case (X_data st, y_data st) of
             (Some X, Some y) \<Rightarrow> gather rest (st\<lparr>X_data := Some (X @ X'), y_data := Some (y @ y')\<rparr>)
           | _ \<Rightarrow> (Inl TypeError, st)))"

definition preprocess ::
  "('f, 'l) env \<Rightarrow> dataset option \<Rightarrow> bool \<Rightarrow> 'f state \<Rightarrow> (error + unit) \<times> 'f state" where
  "preprocess env dataset asynchronous st =
     (let st0 = st\<lparr>X_data := Some [], y_data := Some []\<rparr> in
      case dataset of
        None \<Rightarrow> (Inl TypeError, st0)
      | Some ds \<Rightarrow>
          if asynchronous then
            gather (map (\<lambda>data_file. extract_features env data_file (is_metamapped ds)) (data_files ds))
              (st0\<lparr>calls := calls st0 @ map (\<lambda>data_file. ExtractFeatures (file_name data_file)) (data_files ds)\<rparr>)
          else extract_all env (is_metamapped ds) (data_files ds) st0)"

section \<open>One fold\<close>

definition bindE :: "error + 'a \<Rightarrow> ('a \<Rightarrow> error + 'b) \<Rightarrow> error + 'b" where
  "bindE m f = (case m of Inl e \<Rightarrow> Inl e | Inr x \<Rightarrow> f x)"

text \<open>The exception that a result stands for, if any.\<close>

definition raised :: "error + 'a \<Rightarrow> error option" where
  "raised r = (case r of Inl e \<Rightarrow> Some e | Inr x \<Rightarrow> None)"

text \<open>A list comprehension whose element expression can raise: it stops at the first exception.\<close>

fun collect :: "('a \<Rightarrow> error + 'b) \<Rightarrow> 'a list \<Rightarrow> error + 'b list" where
  "collect f [] = Inr []"
| "collect f (x # xs) = bindE (f x) (\<lambda>y. bindE (collect f xs) (\<lambda>ys. Inr (y # ys)))"

text \<open>
  The three metric calls of one row (model.py, lines 277-281 and 284-288), with
  \<^verbatim>\<open>average='weighted'\<close> and the given \<^verbatim>\<open>labels\<close>: each call is recorded
  with the labels it is given.
\<close>

definition score_all ::
  "('f, 'l) env \<Rightarrow> string list list \<Rightarrow> string list list \<Rightarrow> string list \<Rightarrow> 'f state \<Rightarrow>
   scores \<times> 'f state" where
  "score_all env y_test y_pred labels st =
     (\<lparr>recall = flat_recall_score env y_test y_pred labels,
       precision = flat_precision_score env y_test y_pred labels,
       f1 = flat_f1_score env y_test y_pred labels\<rparr>,
      st\<lparr>calls := calls st @ [Score labels, Score labels, Score labels]\<rparr>)"

text \<open>
  \<^verbatim>\<open>for label in tagset: fold_statistics[label] = {...}\<close> with
  \<^verbatim>\<open>labels=[label]\<close> (model.py, lines 276-281).
\<close>

fun label_rows ::
  "('f, 'l) env \<Rightarrow> string list list \<Rightarrow> string list list \<Rightarrow> string list \<Rightarrow>
   fold_statistics \<Rightarrow> 'f state \<Rightarrow> fold_statistics \<times> 'f state" where
  "label_rows env y_test y_pred [] fold_statistics st = (fold_statistics, st)"
| "label_rows env y_test y_pred (label # rest) fold_statistics st =
     (case score_all env y_test y_pred [label] st of
        (row, st') \<Rightarrow> label_rows env y_test y_pred rest (fold_statistics(label \<mapsto> row)) st')"

text \<open>
  The statistics of a fold: the rows of the labels, then
  \<^verbatim>\<open>fold_statistics['system'] = {...}\<close> with \<^verbatim>\<open>labels=tagset\<close>
  (model.py, lines 284-288).
\<close>

definition fold_statistics_of ::
  "('f, 'l) env \<Rightarrow> string list \<Rightarrow> string list list \<Rightarrow> string list list \<Rightarrow> 'f state \<Rightarrow>
   fold_statistics \<times> 'f state" where
  "fold_statistics_of env tagset y_test y_pred st =
     (case label_rows env y_test y_pred tagset Map.empty st of
        (fold_statistics, st1) \<Rightarrow>
          (case score_all env y_test y_pred tagset st1 of
             (row, st2) \<Rightarrow> (fold_statistics(''system'' \<mapsto> row), st2)))"

text \<open>
  The body of the loop over the folds (model.py, lines 207-301). The two dictionaries
  \<^verbatim>\<open>groundtruth_by_document\<close> and \<^verbatim>\<open>preds_by_document\<close> are passed in and
  returned updated; the statistics of the fold are returned with them.
\<close>

definition process_fold ::
  "('f, 'l) env \<Rightarrow> 'f sequence list \<Rightarrow> string list list \<Rightarrow> string list \<Rightarrow>
   directory_arg \<Rightarrow> directory_arg \<Rightarrow> nat \<Rightarrow> nat list \<times> nat list \<Rightarrow>
   by_document \<times> by_document \<Rightarrow> 'f state \<Rightarrow>
   (error + (by_document \<times> by_document \<times> fold_statistics)) \<times> 'f state" where
  "process_fold env X Y tagset prediction_directory groundtruth_directory fold_no indices dicts st =
     (case bindE (collect (get X) (fst indices)) (\<lambda>X_train.
           bindE (collect (get Y) (fst indices)) (\<lambda>y_train.
           bindE (collect (get X) (snd indices)) (\<lambda>X_test.
           bindE (collect (get Y) (snd indices)) (\<lambda>y_test.
             Inr (X_train, y_train, X_test, y_test))))) of
        Inl e \<Rightarrow> (Inl e, st)
      | Inr (X_train, y_train, X_test, y_test) \<Rightarrow>
          (let train_data = map fst X_train;
               test_data = map fst X_test;
               st1 = st\<lparr>calls := calls st @ [Fit fold_no]\<rparr>
           in case fit env train_data y_train of
                Inl e \<Rightarrow> (Inl e, st1)
              | Inr learner \<Rightarrow>
                  (let st2 = st1\<lparr>calls := calls st1 @ [Predict fold_no]\<rparr>
                   in case predict env learner test_data of
                        Inl e \<Rightarrow> (Inl e, st2)
                      | Inr y_pred \<Rightarrow>
                          (case bindE (if groundtruth_directory \<noteq> NoneDir
                                       then reconstruct X_test y_test (fst dicts)
                                       else Inr (fst dicts)) (\<lambda>groundtruth_by_document.
                                bindE (if prediction_directory \<noteq> NoneDir
                                       then reconstruct X_test y_pred (snd dicts)
                                       else Inr (snd dicts)) (\<lambda>preds_by_document.
                                  Inr (groundtruth_by_document, preds_by_document))) of
                             Inl e \<Rightarrow> (Inl e, st2)
                           | Inr (groundtruth_by_document, preds_by_document) \<Rightarrow>
                               (case fold_statistics_of env tagset y_test y_pred st2 of
                                  (fold_statistics, st3) \<Rightarrow>
                                    (Inr (groundtruth_by_document, preds_by_document,
                                          fold_statistics), st3))))))"

text \<open>
  The loop over the folds; \<^verbatim>\<open>evaluation_statistics\<close>, a dictionary keyed by the fold
  numbers 1, 2, ... in the order of insertion, is the list of its values.
\<close>

fun process_folds ::
  "('f, 'l) env \<Rightarrow> 'f sequence list \<Rightarrow> string list list \<Rightarrow> string list \<Rightarrow>
   directory_arg \<Rightarrow> directory_arg \<Rightarrow> (nat list \<times> nat list) list \<Rightarrow> nat \<Rightarrow>
   by_document \<times> by_document \<Rightarrow> fold_statistics list \<Rightarrow> 'f state \<Rightarrow>
   (error + (by_document \<times> by_document \<times> fold_statistics list)) \<times> 'f state" where
  "process_folds env X Y tagset pd gd [] fold_no dicts evaluation_statistics st =
     (Inr (fst dicts, snd dicts, evaluation_statistics), st)"
| "process_folds env X Y tagset pd gd (indices # rest) fold_no dicts evaluation_statistics st =
     (case process_fold env X Y tagset pd gd fold_no indices dicts st of
        (Inl e, st') \<Rightarrow> (Inl e, st')
      | (Inr (groundtruth_by_document, preds_by_document, fold_statistics), st') \<Rightarrow>
          process_folds env X Y tagset pd gd rest (fold_no + 1)
            (groundtruth_by_document, preds_by_document)
            (evaluation_statistics @ [fold_statistics]) st')"

section \<open>Statistics over all folds\<close>

text \<open>
  \<^verbatim>\<open>statistics.mean\<close> raises StatisticsError on no data; otherwise it divides the
  exact sum by the number of values and rounds the quotient to a float. \<^verbatim>\<open>max\<close> and
  \<^verbatim>\<open>min\<close> raise ValueError on no data.
\<close>

definition py_mean :: "(real \<Rightarrow> real) \<Rightarrow> real list \<Rightarrow> error + real" where
  "py_mean rnd xs =
     (if xs = [] then Inl StatisticsError else Inr (rnd (sum_list xs / real (length xs))))"

definition py_max :: "real list \<Rightarrow> error + real" where
  "py_max xs = (case xs of [] \<Rightarrow> Inl ValueError | x # rest \<Rightarrow> Inr (foldl max x rest))"

definition py_min :: "real list \<Rightarrow> error + real" where
  "py_min xs = (case xs of [] \<Rightarrow> Inl ValueError | x # rest \<Rightarrow> Inr (foldl min x rest))"

text \<open>
  The generator
  \<^verbatim>\<open>(evaluation_statistics[fold][label]['f1'] for fold in evaluation_statistics)\<close>.
\<close>

definition fold_values ::
  "(scores \<Rightarrow> real) \<Rightarrow> string \<Rightarrow> fold_statistics list \<Rightarrow> error + real list" where
  "fold_values metric label evaluation_statistics =
     collect (\<lambda>fold_statistics.
                case fold_statistics label of
                  None \<Rightarrow> Inl KeyError
                | Some s \<Rightarrow> Inr (metric s))
       evaluation_statistics"

record aggregate =
  precision_average :: real
  precision_max :: real
  precision_min :: real
  recall_average :: real
  recall_max :: real
  f1_average :: real
  f1_max :: real
  f1_min :: real

text \<open>The dictionary of one label (model.py, lines 306-315), its entries in the order written.\<close>

definition label_statistics ::
  "(real \<Rightarrow> real) \<Rightarrow> fold_statistics list \<Rightarrow> string \<Rightarrow> error + aggregate" where
  "label_statistics rnd evaluation_statistics label =
     bindE (bindE (fold_values precision label evaluation_statistics) (py_mean rnd)) (\<lambda>pa.
     bindE (bindE (fold_values precision label evaluation_statistics) py_max) (\<lambda>pmax.
     bindE (bindE (fold_values precision label evaluation_statistics) py_min) (\<lambda>pmin.
     bindE (bindE (fold_values recall label evaluation_statistics) (py_mean rnd)) (\<lambda>ra.
     bindE (bindE (fold_values recall label evaluation_statistics) py_max) (\<lambda>rmax.
     bindE (bindE (fold_values f1 label evaluation_statistics) (py_mean rnd)) (\<lambda>fa.
     bindE (bindE (fold_values f1 label evaluation_statistics) py_max) (\<lambda>fmax.
     bindE (bindE (fold_values f1 label evaluation_statistics) py_min) (\<lambda>fmin.
       Inr \<lparr>precision_average = pa, precision_max = pmax, precision_min = pmin,
            recall_average = ra, recall_max = rmax,
            f1_average = fa, f1_max = fmax, f1_min = fmin\<rparr>))))))))"

fun aggregate_labels ::
  "(real \<Rightarrow> real) \<Rightarrow> fold_statistics list \<Rightarrow> string list \<Rightarrow> (string \<rightharpoonup> aggregate) \<Rightarrow>
   error + (string \<rightharpoonup> aggregate)" where
  "aggregate_labels rnd evaluation_statistics [] statistics_all_folds = Inr statistics_all_folds"
| "aggregate_labels rnd evaluation_statistics (label # rest) statistics_all_folds =
     bindE (label_statistics rnd evaluation_statistics label) (\<lambda>a.
       aggregate_labels rnd evaluation_statistics rest (statistics_all_folds(label \<mapsto> a)))"

text \<open>\<^verbatim>\<open>for label in tagset + ['system']: statistics_all_folds[label] = {...}\<close>\<close>

definition statistics_all_folds_of ::
  "(real \<Rightarrow> real) \<Rightarrow> string list \<Rightarrow> fold_statistics list \<Rightarrow> error + (string \<rightharpoonup> aggregate)" where
  "statistics_all_folds_of rnd tagset evaluation_statistics =
     aggregate_labels rnd evaluation_statistics (tagset @ [''system'']) Map.empty"

section \<open>Writing the annotations\<close>

text \<open>\<^verbatim>\<open>os.path.join(a, b)\<close> of posixpath, for two arguments.\<close>

definition path_join :: "string \<Rightarrow> string \<Rightarrow> string" where
  "path_join a b =
     (if b \<noteq> [] \<and> hd b = CHR ''/'' then b
      else if a = [] \<or> last a = CHR ''/'' then a @ b
      else a @ ''/'' @ b)"

text \<open>
  model.py, lines 350-359. An existing directory is kept (a warning is logged), a missing
  one is made.
\<close>

definition create_annotation_directory ::
  "directory_arg \<Rightarrow> dataset \<Rightarrow> string \<Rightarrow> 'f state \<Rightarrow> string \<times> 'f state" where
  "create_annotation_directory directory training_dataset option st =
     (let directory' = (case directory of
                          StrDir s \<Rightarrow> s
                        | _ \<Rightarrow> data_directory training_dataset @ ''/'' @ option @ ''/'')
      in if directory' \<in> directories st then (directory', st)
         else (directory', st\<lparr>directories := insert directory' (directories st)\<rparr>))"

text \<open>
  The loop of \<^verbatim>\<open>predict_annotation_evaluation\<close> (model.py, lines 362-372); the last
  argument is the value of the local variable \<^verbatim>\<open>annotations\<close>, \<open>None\<close> while it is
  unbound.
\<close>

fun write_annotations ::
  "('f, 'l) env \<Rightarrow> string \<Rightarrow> by_document \<Rightarrow> by_document \<Rightarrow> string \<Rightarrow> data_file list \<Rightarrow>
   (string \<times> tagged_span list) option \<Rightarrow> 'f state \<Rightarrow>
   (error + (string \<times> tagged_span list) option) \<times> 'f state" where
  "write_annotations env directory preds_by_document groundtruth_by_document option [] annotations st =
     (Inr annotations, st)"
| "write_annotations env directory preds_by_document groundtruth_by_document option (data_file # rest)
     annotations st =
     (case raw_text env (raw_path data_file) of
        None \<Rightarrow> (Inl ExternalError, st)
      | Some text \<Rightarrow>
          (case (if option = ''groundtruth'' then groundtruth_by_document (file_name data_file)
                 else preds_by_document (file_name data_file)) of
             None \<Rightarrow> (Inl KeyError, st)
           | Some preds \<Rightarrow>
               write_annotations env directory preds_by_document groundtruth_by_document option rest
                 (Some (text, preds))
                 (st\<lparr>ann_files := (ann_files st)
                       (path_join directory (file_name data_file @ ''.ann'') \<mapsto> (text, preds))\<rparr>)))"

text \<open>\<^verbatim>\<open>return annotations\<close> raises UnboundLocalError when the dataset has no file.\<close>

definition predict_annotation_evaluation ::
  "('f, 'l) env \<Rightarrow> string \<Rightarrow> dataset \<Rightarrow> by_document \<Rightarrow> by_document \<Rightarrow> string \<Rightarrow> 'f state \<Rightarrow>
   (error + (string \<times> tagged_span list)) \<times> 'f state" where
  "predict_annotation_evaluation env directory training_dataset preds_by_document
     groundtruth_by_document option st =
     (case write_annotations env directory preds_by_document groundtruth_by_document option
             (data_files training_dataset) None st of
        (Inl e, st') \<Rightarrow> (Inl e, st')
      | (Inr None, st') \<Rightarrow> (Inl UnboundLocalError, st')
      | (Inr (Some annotations), st') \<Rightarrow> (Inr annotations, st'))"

text \<open>The block under \<^verbatim>\<open>if prediction_directory:\<close> (model.py, lines 328-348).\<close>

definition write_cross_validation ::
  "('f, 'l) env \<Rightarrow> dataset \<Rightarrow> by_document \<Rightarrow> by_document \<Rightarrow> 'f state \<Rightarrow>
   (error + string) \<times> 'f state" where
  "write_cross_validation env training_dataset preds_by_document groundtruth_by_document st =
     (let prediction_directory = path_join (data_directory training_dataset) ''predictions'';
          groundtruth_directory = path_join (data_directory training_dataset) ''groundtruth'';
          st1 = snd (create_annotation_directory (StrDir prediction_directory) training_dataset
                       ''predictions'' st);
          st2 = snd (create_annotation_directory (StrDir groundtruth_directory) training_dataset
                       ''groundtruth'' st1)
      in case predict_annotation_evaluation env groundtruth_directory training_dataset
                preds_by_document groundtruth_by_document ''groundtruth'' st2 of
           (Inl e, st3) \<Rightarrow> (Inl e, st3)
         | (Inr _, st3) \<Rightarrow>
             (case predict_annotation_evaluation env prediction_directory training_dataset
                     preds_by_document groundtruth_by_document ''predictions'' st3 of
                (Inl e, st4) \<Rightarrow> (Inl e, st4)
              | (Inr _, st4) \<Rightarrow> (Inr prediction_directory, st4)))"

section \<open>cross_validate\<close>

text \<open>
  What a call that returns leaves behind: the returned value (\<open>None\<close>, or the directory
  of the returned Dataset) and the final values of the local variables the statistics
  are read from.
\<close>

record cv_result =
  returned :: "string option"
  res_tagset :: "string list"
  res_evaluation_statistics :: "fold_statistics list"
  res_statistics_all_folds :: "string \<rightharpoonup> aggregate"
  res_groundtruth_by_document :: by_document
  res_preds_by_document :: by_document

text \<open>
  \<^verbatim>\<open>{filename: [] for filename in list(set([x[2] for x in X_data]))}\<close>
\<close>

definition empty_by_document :: "'f sequence list \<Rightarrow> by_document" where
  "empty_by_document X = (\<lambda>filename. if filename \<in> set (map (\<lambda>x. snd (snd x)) X) then Some [] else None)"

text \<open>
  model.py, lines 153-348. The checks of the arguments come first; then
  \<^verbatim>\<open>preprocess\<close>, the assertion that the two attributes are not \<^verbatim>\<open>None\<close>, the
  tagset, the folds, the statistics over all folds, and the block under
  \<^verbatim>\<open>if prediction_directory:\<close>.
\<close>

definition cross_validate ::
  "('f, 'l) env \<Rightarrow> int \<Rightarrow> dataset option \<Rightarrow> directory_arg \<Rightarrow> directory_arg \<Rightarrow> bool \<Rightarrow>
   'f state \<Rightarrow> (error + cv_result) \<times> 'f state" where
  "cross_validate env num_folds training_dataset prediction_directory groundtruth_directory
     asynchronous st =
     (if num_folds \<le> 1 then (Inl ValueError, st)
      else if prediction_directory \<noteq> NoneDir \<and> training_dataset = None then (Inl ValueError, st)
      else if groundtruth_directory \<noteq> NoneDir \<and> training_dataset = None then (Inl ValueError, st)
      else
        case preprocess env training_dataset asynchronous st of
          (Inl e, st1) \<Rightarrow> (Inl e, st1)
        | (Inr _, st1) \<Rightarrow>
        (case (X_data st1, y_data st1) of
          (Some X, Some Y) \<Rightarrow>
            (let tagset = tagset_of Y;
                 st2 = st1\<lparr>entities := Some tagset\<rparr>;
                 groundtruth_by_document = empty_by_document X;
                 preds_by_document = empty_by_document X;
                 st3 = st2\<lparr>calls := calls st2 @ [Split]\<rparr>
             in case split env num_folds X Y of
                  Inl e \<Rightarrow> (Inl e, st3)
                | Inr folds \<Rightarrow>
             (case process_folds env X Y tagset prediction_directory groundtruth_directory
                     folds 1 (groundtruth_by_document, preds_by_document) [] st3 of
                  (Inl e, st4) \<Rightarrow> (Inl e, st4)
                | (Inr (groundtruth_by_document, preds_by_document, evaluation_statistics), st4) \<Rightarrow>
             (case statistics_all_folds_of (to_float env) tagset evaluation_statistics of
                  Inl e \<Rightarrow> (Inl e, st4)
                | Inr statistics_all_folds \<Rightarrow>
                    (let result = \<lparr>returned = None, res_tagset = tagset,
                                   res_evaluation_statistics = evaluation_statistics,
                                   res_statistics_all_folds = statistics_all_folds,
                                   res_groundtruth_by_document = groundtruth_by_document,
                                   res_preds_by_document = preds_by_document\<rparr>
                     in if truthy prediction_directory then
                          (case training_dataset of
                             None \<Rightarrow> (Inl AttributeError, st4)
                           | Some ds \<Rightarrow>
                               (case write_cross_validation env ds preds_by_document
                                       groundtruth_by_document st4 of
                                  (Inl e, st5) \<Rightarrow> (Inl e, st5)
                                | (Inr directory, st5) \<Rightarrow>
                                    (Inr (result\<lparr>returned := Some directory\<rparr>), st5)))
                        else (Inr result, st4)))))
        | _ \<Rightarrow> (Inl AssertionError, st1)))"

section \<open>EmbeddingComponent._lookup_embedding\<close>

text \<open>
  embedding_component.py, lines 21-30:
  \<^verbatim>\<open>
  try:
      word_vector = self.model[token.text]
      norm = np.linalg.norm(word_vector)
      if norm == 0:
          return [bytes(n) for n in word_vector]
      else:
          return [bytes(n) for n in word_vector / norm]
  except KeyError:
      return []
  \<close>
  The embedding model is a dictionary from words to vectors; \<open>linalg_norm\<close> and
  \<open>to_bytes\<close> stand for \<^verbatim>\<open>np.linalg.norm\<close> and \<^verbatim>\<open>bytes\<close>. The division is
  written as one that fails on a zero divisor, so that reaching it with a zero norm shows
  in the result.
\<close>

record token =
  token_text :: string

definition divide_vector :: "real list \<Rightarrow> real \<Rightarrow> error + real list" where
  "divide_vector word_vector nrm =
     (if nrm = 0 then Inl ZeroDivisionError else Inr (map (\<lambda>n. n / nrm) word_vector))"

definition lookup_embedding ::
  "(string \<rightharpoonup> real list) \<Rightarrow> (real list \<Rightarrow> real) \<Rightarrow> (real \<Rightarrow> 'b) \<Rightarrow> token \<Rightarrow> error + 'b list" where
  "lookup_embedding model linalg_norm to_bytes token =
     (case model (token_text token) of
        None \<Rightarrow> Inr []
      | Some word_vector \<Rightarrow>
          (let nrm = linalg_norm word_vector
           in if nrm = 0 then Inr (map to_bytes word_vector)
              else bindE (divide_vector word_vector nrm) (\<lambda>v. Inr (map to_bytes v))))"

section \<open>Maximal runs\<close>

text \<open>
  The words of the specification about span reconstruction, as definitions of their own:
  a token is a label with its span and its document; \<open>runs\<close> cuts a list into its
  maximal runs of consecutive elements with the same key; a run that is not labelled
  \<open>O\<close> gives one tuple, attributed to the document of its first token, with the label
  of the run, the start of the span of its first token and the end of the span of its
  last token. \<open>append_span\<close> is the statement
  \<^verbatim>\<open>by_document[document].append(...)\<close> for a document that is a key.
\<close>

type_synonym tok = "string \<times> span \<times> string"

fun runs :: "('a \<Rightarrow> 'k) \<Rightarrow> 'a list \<Rightarrow> 'a list list" where
  "runs key [] = []"
| "runs key (x # xs) =
     (case runs key xs of
        [] \<Rightarrow> [[x]]
      | r # rs \<Rightarrow> if key x = key (hd r) then (x # r) # rs else [x] # r # rs)"

definition span_of_run :: "tok list \<Rightarrow> string \<times> tagged_span" where
  "span_of_run r = (snd (snd (hd r)), (fst (hd r), fst (fst (snd (hd r))), snd (fst (snd (last r)))))"

definition spans_of_runs :: "tok list list \<Rightarrow> (string \<times> tagged_span) list" where
  "spans_of_runs rs = map span_of_run (filter (\<lambda>r. fst (hd r) \<noteq> ''O'') rs)"

definition append_span :: "by_document \<Rightarrow> string \<times> tagged_span \<Rightarrow> by_document" where
  "append_span by_doc e =
     (case by_doc (fst e) of None \<Rightarrow> by_doc | Some spans \<Rightarrow> by_doc(fst e \<mapsto> spans @ [snd e]))"

definition tokens :: "string list \<Rightarrow> span list \<Rightarrow> string list \<Rightarrow> tok list" where
  "tokens labels span_indices document_indices = zip labels (zip span_indices document_indices)"

definition emitted :: "tok list \<Rightarrow> (string \<times> tagged_span) list" where
  "emitted toks = spans_of_runs (runs fst toks)"

section \<open>Names used in the statements\<close>

text \<open>
  The two directories that the block under \<^verbatim>\<open>if prediction_directory:\<close> computes from
  the dataset, and the paths \<^verbatim>\<open>os.path.join(directory, data_file.file_name + ".ann")\<close>
  of the annotation files of a list of data files in a directory.
\<close>

text \<open>
  What the metric calls of a fold give and leave in the list of calls, in closed form:
  the row of \<open>system\<close> is computed with the whole tagset, the row of every other
  label of the tagset with that label alone.
\<close>

definition scores_of ::
  "('f, 'l) env \<Rightarrow> string list list \<Rightarrow> string list list \<Rightarrow> string list \<Rightarrow> scores" where
  "scores_of env y_test y_pred labels =
     \<lparr>recall = flat_recall_score env y_test y_pred labels,
      precision = flat_precision_score env y_test y_pred labels,
      f1 = flat_f1_score env y_test y_pred labels\<rparr>"

definition fold_scores ::
  "('f, 'l) env \<Rightarrow> string list \<Rightarrow> string list list \<Rightarrow> string list list \<Rightarrow> fold_statistics" where
  "fold_scores env tagset y_test y_pred =
     (\<lambda>label. if label = ''system'' then Some (scores_of env y_test y_pred tagset)
              else if label \<in> set tagset then Some (scores_of env y_test y_pred [label])
              else None)"

definition score_calls :: "string list \<Rightarrow> call list" where
  "score_calls tagset =
     concat (map (\<lambda>label. [Score [label], Score [label], Score [label]]) tagset)
     @ [Score tagset, Score tagset, Score tagset]"

text \<open>
  What a fold that returns has done: the sequences and labels at its training and test
  indices, the learner fitted on the former, its predictions on the latter, and the
  statistics computed from the test labels and the predictions.
\<close>

definition fold_row ::
  "('f, 'l) env \<Rightarrow> 'f sequence list \<Rightarrow> string list list \<Rightarrow> string list \<Rightarrow>
   nat list \<times> nat list \<Rightarrow> fold_statistics \<Rightarrow> bool" where
  "fold_row env X Y tagset indices fold_statistics =
     (\<exists>X_train y_train X_test y_test learner y_pred.
        collect (get X) (fst indices) = Inr X_train
      \<and> collect (get Y) (fst indices) = Inr y_train
      \<and> collect (get X) (snd indices) = Inr X_test
      \<and> collect (get Y) (snd indices) = Inr y_test
      \<and> fit env (map fst X_train) y_train = Inr learner
      \<and> predict env learner (map fst X_test) = Inr y_pred
      \<and> fold_statistics = fold_scores env tagset y_test y_pred)"

definition predictions_directory :: "dataset \<Rightarrow> string" where
  "predictions_directory ds = path_join (data_directory ds) ''predictions''"

definition groundtruth_directory_of :: "dataset \<Rightarrow> string" where
  "groundtruth_directory_of ds = path_join (data_directory ds) ''groundtruth''"

definition ann_paths :: "string \<Rightarrow> data_file list \<Rightarrow> string set" where
  "ann_paths directory files = (\<lambda>f. path_join directory (file_name f @ ''.ann'')) ` set files"

section \<open>A small run\<close>

text \<open>
  Two documents of two sequences each, two folds, a learner that predicts \<open>Drug\<close> for
  every token, and metrics that depend on the fold only. The first fold tests the first
  sequence of each document, so that the last token of document \<open>a\<close> and the first
  token of document \<open>b\<close> are adjacent in its flattened test stream.
\<close>

definition example_dataset :: dataset where
  "example_dataset =
     \<lparr>data_directory = ''data'', is_metamapped = False,
      data_files = [\<lparr>file_name = ''a'', raw_path = ''data/a.txt''\<rparr>,
                    \<lparr>file_name = ''b'', raw_path = ''data/b.txt''\<rparr>]\<rparr>"

definition example_env :: "(nat, unit) env" where
  "example_env =
     \<lparr>extract_features = (\<lambda>data_file mm.
        if file_name data_file = ''a''
        then Inr ([([1, 2], [(0, 4), (5, 12)], ''a''), ([3], [(14, 18)], ''a'')],
                  [[''O'', ''Drug''], [''Dose'']])
        else Inr ([([4, 5], [(0, 9), (10, 14)], ''b''), ([6], [(16, 20)], ''b'')],
                  [[''Drug'', ''O''], [''O'']])),
      split = (\<lambda>folds X Y. Inr [([1, 3], [0, 2]), ([0, 2], [1, 3])]),
      fit = (\<lambda>train_data y_train. Inr ()),
      predict = (\<lambda>learner test_data. Inr (map (map (\<lambda>features. ''Drug'')) test_data)),
      flat_recall_score = (\<lambda>y_test y_pred labels. 1),
      flat_precision_score = (\<lambda>y_test y_pred labels. if length (hd y_test) = 2 then 1 / 4 else 3 / 4),
      flat_f1_score = (\<lambda>y_test y_pred labels. if length (hd y_test) = 2 then 2 / 5 else 6 / 7),
      to_float = (\<lambda>x. x),
      raw_text = [''data/a.txt'' \<mapsto> ''take aspirin now 50mg'',
                  ''data/b.txt'' \<mapsto> ''ibuprofen used here''] \<rparr>"

definition example_state :: "nat state" where
  "example_state =
     \<lparr>X_data = Some [], y_data = Some [], entities = None, directories = {},
      ann_files = Map.empty, calls = []\<rparr>"

text \<open>The run with both directories given, and the run with the groundtruth directory only.\<close>

definition example_run :: "(error + cv_result) \<times> nat state" where
  "example_run =
     cross_validate example_env 2 (Some example_dataset) (StrDir ''out'') (StrDir ''gt'') False
       example_state"



text \<open>The run on a dataset without files.\<close>

definition example_run_no_files :: "(error + cv_result) \<times> nat state" where
  "example_run_no_files =
     cross_validate example_env 5 (Some (example_dataset\<lparr>data_files := []\<rparr>)) NoneDir NoneDir False
       example_state"

section \<open>Checks of the arguments\<close>

text \<open>
  C2. A call with \<^verbatim>\<open>prediction_directory\<close> or \<^verbatim>\<open>groundtruth_directory\<close> not
  \<^verbatim>\<open>None\<close> and no training dataset raises ValueError (the configuration error of the
  code) and leaves the state as it was: no attribute is reset, no collaborator has been
  called, nothing has been written. This holds for every number of folds, since the check
  of the number of folds raises the same exception.
\<close>

theorem cross_validate_requires_dataset:
  assumes "prediction_directory \<noteq> NoneDir \<or> groundtruth_directory \<noteq> NoneDir"
  shows "cross_validate env num_folds None prediction_directory groundtruth_directory
           asynchronous st = (Inl ValueError, st)"
  using assms by (auto simp: cross_validate_def)

theorem cross_validate_requires_dataset_witness:
  "cross_validate example_env 5 None (StrDir ''out'') NoneDir False example_state
     = (Inl ValueError, example_state)
   \<and> cross_validate example_env 5 None NoneDir (StrDir ''gt'') True example_state
     = (Inl ValueError, example_state)"
  using cross_validate_requires_dataset [of "StrDir ''out''" NoneDir example_env 5 False example_state]
        cross_validate_requires_dataset [of NoneDir "StrDir ''gt''" example_env 5 True example_state]
  by simp

section \<open>Span reconstruction\<close>

subsection \<open>The loop emits one tuple for each maximal run\<close>

lemma runs_Cons: "runs key (x # xs) = (x # takeWhile (\<lambda>y. key y = key x) xs) # runs key (dropWhile (\<lambda>y. key y = key x) xs)"
proof (induction xs arbitrary: x)
  case Nil
  then show ?case by simp
next
  case (Cons u us)
  show ?case
  proof (cases "key u = key x")
    case True
    then have eq: "(\<lambda>y. key y = key u) = (\<lambda>y. key y = key x)" by simp
    show ?thesis using True Cons[of u] by (simp add: eq)
  next
    case False
    then show ?thesis using Cons[of u] by simp
  qed
qed

lemma runs_concat: "concat (runs key xs) = xs"
  by (induction xs) (auto split: list.splits)

lemma runs_nonempty: "r \<in> set (runs key xs) \<Longrightarrow> r \<noteq> []"
  by (induction xs arbitrary: r) (auto split: list.splits if_splits)

lemma runs_constant: "r \<in> set (runs key xs) \<Longrightarrow> t \<in> set r \<Longrightarrow> key t = key (hd r)"
  by (induction xs arbitrary: r t) (auto split: list.splits if_splits)

lemma runs_adjacent: "Suc k < length (runs key xs) \<Longrightarrow> key (hd (runs key xs ! k)) \<noteq> key (hd (runs key xs ! Suc k))"
proof (induction xs arbitrary: k)
  case Nil
  then show ?case by simp
next
  case (Cons x xs)
  show ?case
  proof (cases "runs key xs")
    case Nil
    with Cons.prems show ?thesis by simp
  next
    case (Cons r rs)
    show ?thesis
    proof (cases k)
      case 0
      with Cons Cons.prems Cons.IH[of 0] show ?thesis by (auto split: if_splits)
    next
      case (Suc k')
      with Cons Cons.prems Cons.IH[of k'] Cons.IH[of k] show ?thesis by (auto split: if_splits)
    qed
  qed
qed

lemma emitted_Nil: "emitted [] = []"
  by (simp add: emitted_def spans_of_runs_def)

lemma emitted_dropWhile_O: "emitted ts = emitted (dropWhile (\<lambda>u. fst u = ''O'') ts)"
proof (cases ts)
  case Nil
  then show ?thesis by simp
next
  case (Cons u us)
  show ?thesis
  proof (cases "fst u = ''O''")
    case True
    then show ?thesis unfolding Cons emitted_def spans_of_runs_def
      by (subst runs_Cons) simp
  next
    case False
    then show ?thesis unfolding Cons by simp
  qed
qed

lemma emitted_O: "fst t = ''O'' \<Longrightarrow> emitted (t # ts) = emitted ts"
proof -
  assume O: "fst t = ''O''"
  have "emitted (t # ts) = emitted (dropWhile (\<lambda>u. fst u = ''O'') ts)"
    unfolding emitted_def spans_of_runs_def using O by (subst runs_Cons) simp
  also have "\<dots> = emitted ts" by (rule emitted_dropWhile_O [symmetric])
  finally show ?thesis .
qed

lemma emitted_entity:
  "fst t \<noteq> ''O'' \<Longrightarrow>
   emitted (t # ts) = span_of_run (t # takeWhile (\<lambda>u. fst u = fst t) ts)
                        # emitted (dropWhile (\<lambda>u. fst u = fst t) ts)"
  unfolding emitted_def spans_of_runs_def by (subst runs_Cons) simp

lemma inside_entity_eq:
  "inside_entity labels entity i = i + length (takeWhile (\<lambda>l. l = entity) (drop (Suc i) labels))"
proof (induction labels entity i rule: inside_entity.induct)
  case (1 labels entity i)
  show ?case
  proof (cases "int i < int (length labels) - 1 \<and> labels ! (i + 1) = entity")
    case True
    then have lt: "Suc i < length labels" by linarith
    have d: "drop (Suc i) labels = labels ! Suc i # drop (Suc (Suc i)) labels"
      using lt by (simp add: Cons_nth_drop_Suc)
    have "inside_entity labels entity i = inside_entity labels entity (i + 1)"
      using True by (subst inside_entity.simps) simp
    also have "\<dots> = i + 1 + length (takeWhile (\<lambda>l. l = entity) (drop (Suc (i + 1)) labels))"
      using "1" True by simp
    also have "\<dots> = i + length (takeWhile (\<lambda>l. l = entity) (drop (Suc i) labels))"
      using True by (simp add: d)
    finally show ?thesis .
  next
    case False
    have "takeWhile (\<lambda>l. l = entity) (drop (Suc i) labels) = []"
    proof (cases "Suc i < length labels")
      case True
      then have d: "drop (Suc i) labels = labels ! Suc i # drop (Suc (Suc i)) labels"
        by (simp add: Cons_nth_drop_Suc)
      from True False have "labels ! Suc i \<noteq> entity" by auto
      then show ?thesis by (simp add: d)
    next
      case False
      then show ?thesis by simp
    qed
    moreover have "inside_entity labels entity i = i"
      using False by (subst inside_entity.simps) auto
    ultimately show ?thesis by simp
  qed
qed

lemma dom_append_span: "dom (append_span by_doc e) = dom by_doc"
  by (auto simp: append_span_def split: option.splits if_splits)

lemma takeWhile_fst_length:
  "length (takeWhile (\<lambda>u. fst u = e) ts) = length (takeWhile (\<lambda>l. l = e) (map fst ts))"
  by (induction ts) auto

lemma last_Cons_take: "k \<le> length ts \<Longrightarrow> last (t # take k ts) = (t # ts) ! k"
proof (induction k arbitrary: t ts)
  case 0
  then show ?case by simp
next
  case (Suc k)
  then obtain u us where ts: "ts = u # us" by (cases ts) auto
  with Suc show ?case by simp
qed

lemma merge_loop_emitted:
  assumes len: "length span_indices = length labels" "length document_indices = length labels"
    and dom: "set document_indices \<subseteq> dom by_doc"
  shows "merge_loop labels document_indices span_indices i by_doc =
           Inr (foldl append_span by_doc (emitted (drop i (tokens labels span_indices document_indices))))"
  using dom
proof (induction "length labels - i" arbitrary: i by_doc rule: less_induct)
  case less
  let ?toks = "tokens labels span_indices document_indices"
  have ltoks: "length ?toks = length labels" using len by (simp add: tokens_def)
  have mfst: "map fst ?toks = labels" using len by (simp add: tokens_def)
  show ?case
  proof (cases "i < length labels")
    case False
    then have "drop i ?toks = []" using ltoks by simp
    with False show ?thesis by (subst merge_loop.simps) (simp add: emitted_Nil)
  next
    case True
    have nth: "?toks ! i = (labels ! i, span_indices ! i, document_indices ! i)"
      using True len by (simp add: tokens_def)
    have d: "drop i ?toks = ?toks ! i # drop (Suc i) ?toks"
      using True ltoks by (simp add: Cons_nth_drop_Suc)
    show ?thesis
    proof (cases "labels ! i = ''O''")
      case O: True
      have "merge_loop labels document_indices span_indices i by_doc =
            merge_loop labels document_indices span_indices (i + 1) by_doc"
        using True O by (subst merge_loop.simps) simp
      also have "\<dots> = Inr (foldl append_span by_doc (emitted (drop (i + 1) ?toks)))"
        using True less.prems by (intro less.hyps) auto
      also have "emitted (drop (i + 1) ?toks) = emitted (drop i ?toks)"
        using O nth by (simp add: d emitted_O)
      finally show ?thesis .
    next
      case notO: False
      define entity where "entity = labels ! i"
      define ts where "ts = drop (Suc i) ?toks"
      define k where "k = length (takeWhile (\<lambda>l. l = entity) (drop (Suc i) labels))"
      define j where "j = i + k"
      have j: "inside_entity labels entity i = j"
        by (simp add: inside_entity_eq j_def k_def)
      have k_le: "k \<le> length ts"
        unfolding k_def ts_def using ltoks
        by (metis length_drop length_takeWhile_le)
      have j_lt: "j < length labels"
        using k_le True ltoks by (simp add: j_def ts_def)
      have tw: "length (takeWhile (\<lambda>u. fst u = entity) ts) = k"
        unfolding k_def ts_def by (simp add: takeWhile_fst_length drop_map [symmetric] mfst)
      have take: "takeWhile (\<lambda>u. fst u = entity) ts = take k ts"
        using tw by (metis takeWhile_eq_take)
      have drp: "dropWhile (\<lambda>u. fst u = entity) ts = drop (j + 1) ?toks"
        using tw by (simp add: dropWhile_eq_drop ts_def j_def add.commute)
      have lst: "last (?toks ! i # take k ts) = ?toks ! j"
      proof -
        have "last (?toks ! i # take k ts) = (?toks ! i # ts) ! k"
          using k_le by (rule last_Cons_take)
        also have "?toks ! i # ts = drop i ?toks" by (simp add: ts_def d [symmetric])
        also have "drop i ?toks ! k = ?toks ! j"
          using j_lt ltoks by (simp add: j_def)
        finally show ?thesis .
      qed
      have nthj: "?toks ! j = (labels ! j, span_indices ! j, document_indices ! j)"
        using j_lt len by (simp add: tokens_def)
      obtain spans where spans: "by_doc (document_indices ! i) = Some spans"
        using less.prems True len by (metis domD nth_mem subsetD)
      define e where "e = (document_indices ! i, (entity, fst (span_indices ! i), snd (span_indices ! j)))"
      have lst': "last ((entity, span_indices ! i, document_indices ! i) # take k ts)
                  = (labels ! j, span_indices ! j, document_indices ! j)"
        using lst nth nthj by (simp add: entity_def)
      have em: "emitted (drop i ?toks) = e # emitted (drop (j + 1) ?toks)"
        using notO nth by (simp add: d emitted_entity span_of_run_def entity_def [symmetric]
            ts_def [symmetric] take lst' drp e_def del: last.simps)
      have upd: "by_doc(document_indices ! i \<mapsto> spans @ [(entity, fst (span_indices ! i), snd (span_indices ! j))])
                 = append_span by_doc e"
        by (simp add: append_span_def e_def spans)
      have "merge_loop labels document_indices span_indices i by_doc =
            merge_loop labels document_indices span_indices (j + 1) (append_span by_doc e)"
        using True notO j_lt len spans j
        by (subst merge_loop.simps) (simp add: get_def entity_def [symmetric] upd case_prod_beta)
      also have "\<dots> = Inr (foldl append_span (append_span by_doc e) (emitted (drop (j + 1) ?toks)))"
        using True less.prems by (intro less.hyps) (auto simp: j_def dom_append_span)
      finally show ?thesis by (simp add: em)
    qed
  qed
qed


lemma foldl_append_span_lookup:
  "foldl append_span by_doc es d =
     (case by_doc d of
        None \<Rightarrow> None
      | Some spans \<Rightarrow> Some (spans @ map snd (filter (\<lambda>e. fst e = d) es)))"
proof (induction es arbitrary: by_doc)
  case Nil
  then show ?case by (simp split: option.split)
next
  case (Cons e es)
  show ?case
    by (simp add: Cons.IH) (auto simp: append_span_def split: option.splits)
qed

lemma dom_foldl_append_span: "dom (foldl append_span by_doc es) = dom by_doc"
  by (induction es arbitrary: by_doc) (simp_all add: dom_append_span)

text \<open>
  C1. For label, span and document lists of equal length (and documents that are keys of
  the dictionary), the loop returns, and what it appends is determined by the maximal
  runs \<open>rs\<close> of equal labels of the token list: the runs concatenate to the token
  list, each is non-empty and of one label, neighbouring runs have different labels (so no
  two runs are ever merged and none is split); the list of a document grows by exactly one
  tuple for each run whose label is not \<open>O\<close> and whose first token is of that
  document, in the order of the runs, the tuple being the label of the run, the start of
  its first span and the end of its last span. Runs labelled \<open>O\<close> add nothing.
\<close>

theorem span_reconstruction_maximal_runs:
  assumes "length span_indices = length labels"
    and "length document_indices = length labels"
    and "set document_indices \<subseteq> dom by_doc"
  shows "\<exists>rs by_doc'.
           rs = runs fst (tokens labels span_indices document_indices)
         \<and> concat rs = tokens labels span_indices document_indices
         \<and> (\<forall>r \<in> set rs. r \<noteq> [] \<and> (\<forall>t \<in> set r. fst t = fst (hd r)))
         \<and> (\<forall>k. Suc k < length rs \<longrightarrow> fst (hd (rs ! k)) \<noteq> fst (hd (rs ! Suc k)))
         \<and> merge_loop labels document_indices span_indices 0 by_doc = Inr by_doc'
         \<and> dom by_doc' = dom by_doc
         \<and> (\<forall>d spans. by_doc d = Some spans \<longrightarrow>
               by_doc' d = Some (spans @ map (\<lambda>r. snd (span_of_run r))
                  (filter (\<lambda>r. fst (hd r) \<noteq> ''O'' \<and> fst (span_of_run r) = d) rs)))"
proof -
  let ?toks = "tokens labels span_indices document_indices"
  let ?rs = "runs fst ?toks"
  let ?m = "foldl append_span by_doc (emitted ?toks)"
  have loop: "merge_loop labels document_indices span_indices 0 by_doc = Inr ?m"
    using merge_loop_emitted [OF assms, of 0] by simp
  have flt: "map snd (filter (\<lambda>e. fst e = d) (map span_of_run (filter (\<lambda>r. fst (hd r) \<noteq> ''O'') rs)))
             = map (\<lambda>r. snd (span_of_run r))
                 (filter (\<lambda>r. fst (hd r) \<noteq> ''O'' \<and> fst (span_of_run r) = d) rs)"
    for d and rs :: "tok list list"
    by (induction rs) auto
  have look: "\<forall>d spans. by_doc d = Some spans \<longrightarrow>
        ?m d = Some (spans @ map (\<lambda>r. snd (span_of_run r))
                  (filter (\<lambda>r. fst (hd r) \<noteq> ''O'' \<and> fst (span_of_run r) = d) ?rs))"
  proof (intro allI impI)
    fix d spans assume "by_doc d = Some spans"
    then have "?m d = Some (spans @ map snd (filter (\<lambda>e. fst e = d) (emitted ?toks)))"
      by (simp add: foldl_append_span_lookup)
    then show "?m d = Some (spans @ map (\<lambda>r. snd (span_of_run r))
                  (filter (\<lambda>r. fst (hd r) \<noteq> ''O'' \<and> fst (span_of_run r) = d) ?rs))"
      by (simp only: emitted_def spans_of_runs_def flt)
  qed
  have c1: "concat ?rs = ?toks" by (rule runs_concat)
  have c2: "\<forall>r \<in> set ?rs. r \<noteq> [] \<and> (\<forall>t \<in> set r. fst t = fst (hd r))"
    using runs_nonempty [of _ fst ?toks] runs_constant [of _ fst ?toks] by blast
  have c3: "\<forall>k. Suc k < length ?rs \<longrightarrow> fst (hd (?rs ! k)) \<noteq> fst (hd (?rs ! Suc k))"
    using runs_adjacent [of _ fst ?toks] by blast
  have c4: "dom ?m = dom by_doc" by (rule dom_foldl_append_span)
  from c1 c2 c3 loop c4 look show ?thesis by blast
qed

theorem span_reconstruction_maximal_runs_witness:
  "\<exists>by_doc'.
     merge_loop [''O'', ''B-Drug'', ''B-Drug'', ''O''] [''doc'', ''doc'', ''doc'', ''doc'']
       [(0, 1), (2, 7), (8, 13), (14, 15)] 0 [''doc'' \<mapsto> []] = Inr by_doc'
     \<and> dom by_doc' = {''doc''}
     \<and> by_doc' ''doc'' = Some [(''B-Drug'', 2, 13)]"
proof -
  have h1: "length [(0::int, 1::int), (2, 7), (8, 13), (14, 15)] = length [''O'', ''B-Drug'', ''B-Drug'', ''O'']"
    by simp
  have h2: "length [''doc'', ''doc'', ''doc'', ''doc''] = length [''O'', ''B-Drug'', ''B-Drug'', ''O'']"
    by simp
  have h3: "set [''doc'', ''doc'', ''doc'', ''doc''] \<subseteq> dom [''doc'' \<mapsto> ([] :: tagged_span list)]"
    by simp
  from span_reconstruction_maximal_runs [OF h1 h2 h3]
  obtain rs by_doc' where
    rs: "rs = runs fst (tokens [''O'', ''B-Drug'', ''B-Drug'', ''O'']
                 [(0, 1), (2, 7), (8, 13), (14, 15)] [''doc'', ''doc'', ''doc'', ''doc''])"
    and loop: "merge_loop [''O'', ''B-Drug'', ''B-Drug'', ''O''] [''doc'', ''doc'', ''doc'', ''doc'']
       [(0, 1), (2, 7), (8, 13), (14, 15)] 0 [''doc'' \<mapsto> []] = Inr by_doc'"
    and dom: "dom by_doc' = dom [''doc'' \<mapsto> ([] :: tagged_span list)]"
    and look: "\<forall>d spans. [''doc'' \<mapsto> ([] :: tagged_span list)] d = Some spans \<longrightarrow>
               by_doc' d = Some (spans @ map (\<lambda>r. snd (span_of_run r))
                  (filter (\<lambda>r. fst (hd r) \<noteq> ''O'' \<and> fst (span_of_run r) = d) rs))"
    by blast
  have rs': "rs = [[(''O'', (0, 1), ''doc'')],
                   [(''B-Drug'', (2, 7), ''doc''), (''B-Drug'', (8, 13), ''doc'')],
                   [(''O'', (14, 15), ''doc'')]]"
    unfolding rs by (simp add: tokens_def)
  from look have "by_doc' ''doc'' = Some [(''B-Drug'', 2, 13)]"
    by (simp add: rs' span_of_run_def)
  with loop dom show ?thesis by simp
qed

lemma trailing_run_index:
  assumes toks: "concat (runs key xs) = xs" and ne: "xs \<noteq> []"
  shows "\<exists>i. i < length xs
           \<and> hd (last (runs key xs)) = xs ! i
           \<and> (\<forall>j. i \<le> j \<and> j < length xs \<longrightarrow> key (xs ! j) = key (last xs))
           \<and> (i = 0 \<or> key (xs ! (i - 1)) \<noteq> key (last xs))"
proof -
  let ?rs = "runs key xs"
  have "?rs \<noteq> []" using toks ne by auto
  then obtain rs' r where rs: "?rs = rs' @ [r]" by (metis rev_exhaust)
  have r_in: "r \<in> set ?rs" by (simp add: rs)
  have r_ne: "r \<noteq> []" using r_in by (rule runs_nonempty)
  have cat: "concat rs' @ r = xs" using toks by (simp add: rs)
  define i where "i = length (concat rs')"
  have len: "length xs = i + length r" using cat by (auto simp: i_def)
  have i_lt: "i < length xs" using len r_ne by simp
  have nth_r: "xs ! (i + m) = r ! m" for m
    using cat by (metis i_def nth_append_length_plus)
  have hd_r: "hd r = xs ! i" using nth_r [of 0] r_ne by (simp add: hd_conv_nth)
  have last_r: "last r = last xs" using cat r_ne by (metis last_appendR)
  have const: "key t = key (hd r)" if "t \<in> set r" for t
    using runs_constant [OF r_in that] .
  have "last r \<in> set r" using r_ne by simp
  then have "key (last r) = key (hd r)" by (rule const)
  then have key_last: "key (last xs) = key (hd r)" by (simp add: last_r)
  have all: "key (xs ! j) = key (last xs)" if "i \<le> j" "j < length xs" for j
  proof -
    from that len have "j - i < length r" by simp
    then have "r ! (j - i) \<in> set r" by simp
    moreover have "xs ! j = r ! (j - i)" using nth_r [of "j - i"] that by simp
    ultimately show ?thesis using const key_last by simp
  qed
  have before: "key (xs ! (i - 1)) \<noteq> key (last xs)" if pos: "0 < i"
  proof -
    from pos have cne: "concat rs' \<noteq> []" by (simp add: i_def)
    then have "rs' \<noteq> []" by auto
    then obtain rs'' q where rs': "rs' = rs'' @ [q]" by (metis rev_exhaust)
    have q_in: "q \<in> set ?rs" by (simp add: rs rs')
    have q_ne: "q \<noteq> []" using q_in by (rule runs_nonempty)
    have "xs ! (i - 1) = concat rs' ! (i - 1)"
      using cat pos by (metis diff_less i_def nth_append zero_less_one)
    also have "\<dots> = last (concat rs')" using cne by (simp add: last_conv_nth i_def)
    also have "\<dots> = last q" using q_ne by (simp add: rs')
    finally have "xs ! (i - 1) = last q" .
    moreover have "last q \<in> set q" using q_ne by simp
    then have "key (last q) = key (hd q)" by (rule runs_constant [OF q_in])
    ultimately have "key (xs ! (i - 1)) = key (hd q)" by simp
    moreover have "key (hd (?rs ! length rs'')) \<noteq> key (hd (?rs ! Suc (length rs'')))"
      by (rule runs_adjacent) (simp add: rs rs')
    moreover have "?rs ! length rs'' = q" by (simp add: rs rs' nth_append)
    moreover have "?rs ! Suc (length rs'') = r" by (simp add: rs rs' nth_append)
    ultimately show ?thesis by (simp add: key_last)
  qed
  have "last ?rs = r" by (simp add: rs)
  with i_lt hd_r all before show ?thesis by (intro exI [of _ i]) auto
qed

text \<open>
  C4. When the last label is not \<open>O\<close>, the loop returns and the tuple it appended
  last is that of the trailing run: with \<open>i\<close> the index at which the trailing run of
  the last label starts (every label from \<open>i\<close> on is the last label, and the label
  before \<open>i\<close>, if there is one, is another), the list of the document of token
  \<open>i\<close> ends with the tuple of the last label, the start of the span of token \<open>i\<close>
  and the end of the span of the last token.
\<close>

theorem trailing_run_emitted:
  assumes len: "length span_indices = length labels" "length document_indices = length labels"
    and dom: "set document_indices \<subseteq> dom by_doc"
    and ne: "labels \<noteq> []"
    and last: "last labels \<noteq> ''O''"
  shows "\<exists>by_doc' i spans.
           merge_loop labels document_indices span_indices 0 by_doc = Inr by_doc'
         \<and> i < length labels
         \<and> (\<forall>j. i \<le> j \<and> j < length labels \<longrightarrow> labels ! j = last labels)
         \<and> (i = 0 \<or> labels ! (i - 1) \<noteq> last labels)
         \<and> by_doc' (document_indices ! i)
             = Some (spans @ [(last labels, fst (span_indices ! i), snd (last span_indices))])"
proof -
  let ?toks = "tokens labels span_indices document_indices"
  let ?rs = "runs fst ?toks"
  have ltoks: "length ?toks = length labels" using len by (simp add: tokens_def)
  have nth: "?toks ! j = (labels ! j, span_indices ! j, document_indices ! j)"
    if "j < length labels" for j
    using that len by (simp add: tokens_def)
  have toks_ne: "?toks \<noteq> []" using ne len by (auto simp: tokens_def)
  have sne: "span_indices \<noteq> []" "document_indices \<noteq> []" using ne len by auto
  have inner: "last (zip span_indices document_indices) = (last span_indices, last document_indices)"
    using sne len by (simp add: last_zip)
  have zne: "zip span_indices document_indices \<noteq> []"
    using sne by (cases span_indices; cases document_indices) auto
  have last_toks: "last ?toks = (last labels, last span_indices, last document_indices)"
    unfolding tokens_def using ne zne len by (simp add: last_zip inner)
  from trailing_run_index [OF runs_concat toks_ne, of fst]
  obtain i where I: "i < length ?toks
           \<and> hd (last ?rs) = ?toks ! i
           \<and> (\<forall>j. i \<le> j \<and> j < length ?toks \<longrightarrow> fst (?toks ! j) = fst (last ?toks))
           \<and> (i = 0 \<or> fst (?toks ! (i - 1)) \<noteq> fst (last ?toks))" ..
  note i_lt = I [THEN conjunct1]
  note hd_last = I [THEN conjunct2, THEN conjunct1]
  note all = I [THEN conjunct2, THEN conjunct2, THEN conjunct1]
  note before = I [THEN conjunct2, THEN conjunct2, THEN conjunct2]
  have i_lt': "i < length labels" using i_lt ltoks by simp
  have all': "\<forall>j. i \<le> j \<and> j < length labels \<longrightarrow> labels ! j = last labels"
  proof (intro allI impI)
    fix j assume j: "i \<le> j \<and> j < length labels"
    then have jt: "i \<le> j \<and> j < length ?toks" by (simp only: ltoks)
    have "fst (?toks ! j) = fst (last ?toks)" by (rule all [rule_format, OF jt])
    moreover from j have "?toks ! j = (labels ! j, span_indices ! j, document_indices ! j)"
      by (intro nth) simp
    ultimately show "labels ! j = last labels" by (simp only: last_toks fst_conv)
  qed
  have before': "i = 0 \<or> labels ! (i - 1) \<noteq> last labels"
  proof (cases "i = 0")
    case True
    then show ?thesis by simp
  next
    case False
    then have "i - 1 < length labels" using i_lt' by simp
    from nth [OF this] have "fst (?toks ! (i - 1)) = labels ! (i - 1)" by (simp only: fst_conv)
    moreover from before False have "fst (?toks ! (i - 1)) \<noteq> fst (last ?toks)" by blast
    ultimately show ?thesis by (simp only: last_toks fst_conv) blast
  qed
  have rs_ne: "?rs \<noteq> []" using runs_concat [of fst ?toks] toks_ne by auto
  define r where "r = last ?rs"
  define rs' where "rs' = butlast ?rs"
  have rs: "?rs = rs' @ [r]" using rs_ne by (simp add: r_def rs'_def)
  have r_in: "r \<in> set ?rs" by (simp add: rs)
  have r_ne: "r \<noteq> []" using r_in by (rule runs_nonempty)
  have "concat rs' @ r = ?toks" using runs_concat [of fst ?toks] by (simp add: rs)
  then have last_r: "last r = last ?toks" using r_ne by (metis last_appendR)
  have hd_r: "hd r = (labels ! i, span_indices ! i, document_indices ! i)"
    using hd_last nth [OF i_lt'] by (simp add: r_def)
  have lab: "labels ! i = last labels" using all' i_lt' by simp
  define es where "es = spans_of_runs rs'"
  have em: "emitted ?toks = es @ [span_of_run r]"
    using lab last hd_r by (simp add: emitted_def rs spans_of_runs_def es_def)
  let ?m = "foldl append_span by_doc es"
  have "document_indices ! i \<in> set document_indices" using i_lt' len by simp
  with dom have "document_indices ! i \<in> dom ?m" by (auto simp: dom_foldl_append_span)
  then obtain spans where spans: "?m (document_indices ! i) = Some spans" by auto
  have loop: "merge_loop labels document_indices span_indices 0 by_doc
        = Inr (append_span ?m (span_of_run r))"
    using merge_loop_emitted [OF len dom, of 0] by (simp add: em)
  have final: "append_span ?m (span_of_run r) (document_indices ! i)
        = Some (spans @ [(last labels, fst (span_indices ! i), snd (last span_indices))])"
    by (simp add: append_span_def span_of_run_def spans hd_r lab last_r last_toks)
  show ?thesis
    by (intro exI [of _ "append_span ?m (span_of_run r)"] exI [of _ i] exI [of _ spans] conjI)
      (fact loop i_lt' all' before' final)+
qed

theorem trailing_run_emitted_witness:
  "\<exists>by_doc' spans.
     merge_loop [''O'', ''Drug'', ''Dose'', ''Dose''] [''a'', ''a'', ''a'', ''b'']
       [(0, 1), (2, 7), (8, 13), (14, 15)] 0 [''a'' \<mapsto> [], ''b'' \<mapsto> []] = Inr by_doc'
     \<and> by_doc' ''a'' = Some (spans @ [(''Dose'', 8, 15)])"
proof -
  let ?labels = "[''O'', ''Drug'', ''Dose'', ''Dose'']"
  have h1: "length [(0::int, 1::int), (2, 7), (8, 13), (14, 15)] = length ?labels"
    by simp
  have h2: "length [''a'', ''a'', ''a'', ''b''] = length ?labels"
    by simp
  have h3: "set [''a'', ''a'', ''a'', ''b''] \<subseteq> dom [''a'' \<mapsto> ([] :: tagged_span list), ''b'' \<mapsto> []]"
    by simp
  have h4: "?labels \<noteq> []" by simp
  have h5: "last ?labels \<noteq> ''O''" by simp
  from trailing_run_emitted [OF h1 h2 h3 h4 h5]
  obtain by_doc' i spans where W:
    "merge_loop ?labels [''a'', ''a'', ''a'', ''b'']
       [(0, 1), (2, 7), (8, 13), (14, 15)] 0 [''a'' \<mapsto> [], ''b'' \<mapsto> []] = Inr by_doc'
     \<and> i < length ?labels
     \<and> (\<forall>j. i \<le> j \<and> j < length ?labels \<longrightarrow> ?labels ! j = last ?labels)
     \<and> (i = 0 \<or> ?labels ! (i - 1) \<noteq> last ?labels)
     \<and> by_doc' ([''a'', ''a'', ''a'', ''b''] ! i) = Some (spans @ [(last ?labels,
                 fst ([(0::int, 1::int), (2, 7), (8, 13), (14, 15)] ! i),
                 snd (last [(0::int, 1::int), (2, 7), (8, 13), (14, 15)]))])"
    by (elim exE) (rule that)
  note loop = W [THEN conjunct1]
  note i_lt = W [THEN conjunct2, THEN conjunct1]
  note all = W [THEN conjunct2, THEN conjunct2, THEN conjunct1]
  note before = W [THEN conjunct2, THEN conjunct2, THEN conjunct2, THEN conjunct1]
  note look = W [THEN conjunct2, THEN conjunct2, THEN conjunct2, THEN conjunct2]
  from i_lt have "i = 0 \<or> i = 1 \<or> i = 2 \<or> i = 3" by auto
  moreover have "i \<noteq> 0" using all [rule_format, of 0] by auto
  moreover have "i \<noteq> 1" using all [rule_format, of 1] by auto
  moreover have "i \<noteq> 3" using before by auto
  ultimately have i: "i = 2" by blast
  have "by_doc' ''a'' = Some (spans @ [(''Dose'', 8, 15)])"
    using look by (simp add: i)
  with loop show ?thesis by blast
qed

subsection \<open>Merging across documents\<close>

text \<open>
  C9. The loop compares labels only. Here the test stream of a fold holds a sequence of
  document \<open>a\<close> ending in a \<open>Drug\<close> token with span (5, 12), followed by a sequence
  of document \<open>b\<close> starting with a \<open>Drug\<close> token with span (0, 9): one tuple is
  emitted, it is appended to the list of \<open>a\<close>, its start 5 is from \<open>a\<close> and its end 9
  is from \<open>b\<close>; nothing is appended for \<open>b\<close>.
\<close>

theorem merge_crosses_documents:
  "\<exists>by_doc.
     reconstruct [([1::nat, 2], [(0, 4), (5, 12)], ''a''), ([4, 5], [(0, 9), (10, 14)], ''b'')]
       [[''O'', ''Drug''], [''Drug'', ''O'']] [''a'' \<mapsto> [], ''b'' \<mapsto> []] = Inr by_doc
     \<and> by_doc ''a'' = Some [(''Drug'', 5, 9)]
     \<and> by_doc ''b'' = Some []"
  by (simp add: reconstruct_def document_indices_of_def span_indices_of_def get_def
      merge_loop.simps inside_entity.simps)

section \<open>Embedding lookup\<close>

text \<open>
  C10. \<^verbatim>\<open>_lookup_embedding\<close> returns a list for every token: the empty list when the
  text of the token is not in the embedding model, the vector as it is when its norm is 0,
  and the vector divided by its norm otherwise. It never returns the error of a division
  by zero, whatever the norm function is.
\<close>

theorem lookup_embedding_total:
  "lookup_embedding model linalg_norm to_bytes token =
     Inr (case model (token_text token) of
            None \<Rightarrow> []
          | Some word_vector \<Rightarrow>
              if linalg_norm word_vector = 0 then map to_bytes word_vector
              else map to_bytes (map (\<lambda>n. n / linalg_norm word_vector) word_vector))"
  by (simp add: lookup_embedding_def divide_vector_def bindE_def Let_def split: option.split)

section \<open>What each phase of cross_validate changes\<close>

text \<open>
  Each phase is followed through the state: which attributes it leaves alone, which calls
  it adds, which annotation files it writes, whether it returns or raises.
\<close>

lemma extract_all_effect:
  "extract_all env mm files st = (r, st') \<Longrightarrow>
   entities st' = entities st \<and> directories st' = directories st \<and> ann_files st' = ann_files st
   \<and> (\<exists>evs. calls st' = calls st @ evs \<and> (\<forall>ev \<in> set evs. \<exists>f. ev = ExtractFeatures f))"
proof (induction files arbitrary: st)
  case Nil
  then show ?case by simp
next
  case (Cons f files)
  let ?st1 = "st\<lparr>calls := calls st @ [ExtractFeatures (file_name f)]\<rparr>"
  show ?case
  proof (cases "\<exists>features labels X y. extract_features env f mm = Inr (features, labels)
                  \<and> X_data st = Some X \<and> y_data st = Some y")
    case True
    then obtain features labels X y where
      ef: "extract_features env f mm = Inr (features, labels)"
      and Xy: "X_data st = Some X" "y_data st = Some y" by blast
    let ?st2 = "?st1\<lparr>X_data := Some (X @ features), y_data := Some (y @ labels)\<rparr>"
    from Cons.prems ef Xy have "extract_all env mm files ?st2 = (r, st')"
      by (simp add: Let_def)
    from Cons.IH [OF this] obtain evs where
      same: "entities st' = entities st" "directories st' = directories st"
        "ann_files st' = ann_files st"
      and c: "calls st' = calls st @ ExtractFeatures (file_name f) # evs"
      and evs: "\<forall>ev \<in> set evs. \<exists>f. ev = ExtractFeatures f" by auto
    from evs have "\<forall>ev \<in> set (ExtractFeatures (file_name f) # evs). \<exists>f. ev = ExtractFeatures f"
      by simp
    with same c show ?thesis by blast
  next
    case False
    with Cons.prems have "st' = ?st1"
      by (auto simp: Let_def split: sum.splits option.splits)
    then have "calls st' = calls st @ [ExtractFeatures (file_name f)]"
      "entities st' = entities st" "directories st' = directories st"
        "ann_files st' = ann_files st" by simp_all
    moreover have "\<forall>ev \<in> set [ExtractFeatures (file_name f)]. \<exists>f. ev = ExtractFeatures f" by simp
    ultimately show ?thesis by blast
  qed
qed

lemma gather_effect:
  "gather rs st = (r, st') \<Longrightarrow>
   entities st' = entities st \<and> directories st' = directories st \<and> ann_files st' = ann_files st
   \<and> calls st' = calls st"
proof (induction rs arbitrary: st)
  case Nil
  then show ?case by simp
next
  case (Cons a rs)
  show ?case
  proof (cases "\<exists>X' y' X y. a = Inr (X', y') \<and> X_data st = Some X \<and> y_data st = Some y")
    case True
    then obtain X' y' X y where a: "a = Inr (X', y')"
      and Xy: "X_data st = Some X" "y_data st = Some y" by blast
    from Cons.prems a Xy
    have "gather rs (st\<lparr>X_data := Some (X @ X'), y_data := Some (y @ y')\<rparr>) = (r, st')" by simp
    from Cons.IH [OF this] show ?thesis by simp
  next
    case False
    with Cons.prems have "st' = st" by (auto split: sum.splits option.splits)
    then show ?thesis by simp
  qed
qed

lemma preprocess_effect:
  assumes "preprocess env tds a st = (r, st')"
  shows "entities st' = entities st \<and> directories st' = directories st \<and> ann_files st' = ann_files st
   \<and> (\<exists>evs. calls st' = calls st @ evs \<and> (\<forall>ev \<in> set evs. \<exists>f. ev = ExtractFeatures f))"
proof (cases tds)
  case None
  with assms have "st' = st\<lparr>X_data := Some [], y_data := Some []\<rparr>"
    by (auto simp: preprocess_def Let_def)
  then have "calls st' = calls st @ []" "entities st' = entities st"
    "directories st' = directories st" "ann_files st' = ann_files st" by simp_all
  then show ?thesis by (metis empty_iff list.set(1))
next
  case (Some ds)
  let ?st0 = "st\<lparr>X_data := Some [], y_data := Some []\<rparr>"
  show ?thesis
  proof (cases a)
    case True
    let ?evs = "map (\<lambda>data_file. ExtractFeatures (file_name data_file)) (data_files ds)"
    from assms Some True have
      "gather (map (\<lambda>data_file. extract_features env data_file (is_metamapped ds)) (data_files ds))
         (?st0\<lparr>calls := calls ?st0 @ ?evs\<rparr>) = (r, st')"
      by (simp add: preprocess_def Let_def)
    from gather_effect [OF this] have
      "calls st' = calls st @ ?evs" "entities st' = entities st"
      "directories st' = directories st" "ann_files st' = ann_files st" by simp_all
    moreover have "\<forall>ev \<in> set ?evs. \<exists>f. ev = ExtractFeatures f" by auto
    ultimately show ?thesis by blast
  next
    case False
    from assms Some False have "extract_all env (is_metamapped ds) (data_files ds) ?st0 = (r, st')"
      by (simp add: preprocess_def Let_def)
    from extract_all_effect [OF this] show ?thesis by simp
  qed
qed

lemma preprocess_no_files:
  "data_files ds = [] \<Longrightarrow>
   preprocess env (Some ds) a st = (Inr (), st\<lparr>X_data := Some [], y_data := Some []\<rparr>)"
  by (simp add: preprocess_def Let_def)


lemma label_rows_eq:
  "label_rows env y_test y_pred labels fs st =
     ((\<lambda>label. if label \<in> set labels then Some (scores_of env y_test y_pred [label]) else fs label),
      st\<lparr>calls := calls st @ concat (map (\<lambda>label. [Score [label], Score [label], Score [label]]) labels)\<rparr>)"
proof (induction labels arbitrary: fs st)
  case Nil
  then show ?case by simp
next
  case (Cons label rest)
  show ?case
    by (simp add: Cons.IH score_all_def) (rule ext, simp add: scores_of_def)
qed

lemma fold_statistics_of_eq:
  "fold_statistics_of env T y_test y_pred st =
     (fold_scores env T y_test y_pred, st\<lparr>calls := calls st @ score_calls T\<rparr>)"
  by (simp add: fold_statistics_of_def label_rows_eq score_all_def fold_scores_def score_calls_def)
    (rule ext, simp add: scores_of_def)

lemma score_calls_set:
  "ev \<in> set (score_calls T) \<Longrightarrow> ev = Score T \<or> (\<exists>l \<in> set T. ev = Score [l])"
  by (auto simp: score_calls_def)

lemma process_fold_effect:
  assumes "process_fold env X Y T pd gd n idx dicts st = (r, st')"
  shows "X_data st' = X_data st \<and> y_data st' = y_data st \<and> entities st' = entities st
       \<and> directories st' = directories st \<and> ann_files st' = ann_files st
       \<and> (\<exists>evs. calls st' = calls st @ evs
             \<and> (\<forall>ev \<in> set evs. ev = Fit n \<or> ev = Predict n \<or> ev \<in> set (score_calls T)))"
proof -
  have "st' = st \<or> st' = st\<lparr>calls := calls st @ [Fit n]\<rparr>
      \<or> st' = st\<lparr>calls := calls st @ [Fit n, Predict n]\<rparr>
      \<or> st' = st\<lparr>calls := calls st @ [Fit n, Predict n] @ score_calls T\<rparr>"
    using assms
    by (auto simp: process_fold_def Let_def fold_statistics_of_eq split: sum.splits prod.splits)
  then consider "st' = st\<lparr>calls := calls st @ []\<rparr>" | "st' = st\<lparr>calls := calls st @ [Fit n]\<rparr>"
      | "st' = st\<lparr>calls := calls st @ [Fit n, Predict n]\<rparr>"
      | "st' = st\<lparr>calls := calls st @ [Fit n, Predict n] @ score_calls T\<rparr>"
    by auto
  then show ?thesis
  proof cases
    case 1
    then show ?thesis by simp
  next
    case 2
    then show ?thesis by simp
  next
    case 3
    then show ?thesis by simp
  next
    case 4
    have "\<forall>ev \<in> set ([Fit n, Predict n] @ score_calls T).
            ev = Fit n \<or> ev = Predict n \<or> ev \<in> set (score_calls T)" by auto
    moreover from 4 have "calls st' = calls st @ ([Fit n, Predict n] @ score_calls T)"
      "X_data st' = X_data st" "y_data st' = y_data st" "entities st' = entities st"
      "directories st' = directories st" "ann_files st' = ann_files st" by simp_all
    ultimately show ?thesis by blast
  qed
qed

lemma process_fold_statistics:
  assumes "process_fold env X Y T pd gd n idx dicts st = (Inr (gt, pr, fs), st')"
  shows "fold_row env X Y T idx fs"
proof -
  obtain X_train y_train X_test y_test where
    c: "collect (get X) (fst idx) = Inr X_train" "collect (get Y) (fst idx) = Inr y_train"
       "collect (get X) (snd idx) = Inr X_test" "collect (get Y) (snd idx) = Inr y_test"
    using assms
    by (auto simp: process_fold_def bindE_def split: sum.splits)
  obtain learner where f: "fit env (map fst X_train) y_train = Inr learner"
    using assms c
    by (auto simp: process_fold_def bindE_def Let_def split: sum.splits)
  obtain y_pred where p: "predict env learner (map fst X_test) = Inr y_pred"
    using assms c f
    by (auto simp: process_fold_def bindE_def Let_def split: sum.splits)
  have "fs = fold_scores env T y_test y_pred"
    using assms c f p
    by (auto simp: process_fold_def bindE_def Let_def fold_statistics_of_eq
        split: sum.splits if_splits)
  with c f p show ?thesis unfolding fold_row_def by blast
qed

lemma process_folds_effect:
  "process_folds env X Y T pd gd folds n dicts es st = (r, st') \<Longrightarrow>
   X_data st' = X_data st \<and> y_data st' = y_data st \<and> entities st' = entities st
   \<and> directories st' = directories st \<and> ann_files st' = ann_files st
   \<and> (\<exists>evs. calls st' = calls st @ evs
         \<and> (\<forall>ev \<in> set evs. (\<exists>k. ev = Fit k) \<or> (\<exists>k. ev = Predict k) \<or> ev \<in> set (score_calls T)))"
proof (induction folds arbitrary: n dicts es st)
  case Nil
  then show ?case by simp
next
  case (Cons indices rest)
  obtain r1 st1 where pf: "process_fold env X Y T pd gd n indices dicts st = (r1, st1)"
    by (cases "process_fold env X Y T pd gd n indices dicts st")
  from process_fold_effect [OF pf] obtain evs1 where
    same1: "X_data st1 = X_data st" "y_data st1 = y_data st" "entities st1 = entities st"
      "directories st1 = directories st" "ann_files st1 = ann_files st"
    and c1: "calls st1 = calls st @ evs1"
    and e1: "\<forall>ev \<in> set evs1. ev = Fit n \<or> ev = Predict n \<or> ev \<in> set (score_calls T)"
    by blast
  show ?case
  proof (cases r1)
    case (Inl e)
    with Cons.prems pf have "st' = st1" by simp
    with same1 c1 e1 show ?thesis by blast
  next
    case (Inr res)
    obtain gt pr fs where res: "res = (gt, pr, fs)" by (cases res)
    from Cons.prems pf Inr res
    have "process_folds env X Y T pd gd rest (n + 1) (gt, pr) (es @ [fs]) st1 = (r, st')"
      by simp
    from Cons.IH [OF this] obtain evs2 where
      same2: "X_data st' = X_data st1" "y_data st' = y_data st1" "entities st' = entities st1"
        "directories st' = directories st1" "ann_files st' = ann_files st1"
      and c2: "calls st' = calls st1 @ evs2"
      and e2: "\<forall>ev \<in> set evs2. (\<exists>k. ev = Fit k) \<or> (\<exists>k. ev = Predict k) \<or> ev \<in> set (score_calls T)"
      by blast
    have "calls st' = calls st @ (evs1 @ evs2)" by (simp add: c1 c2)
    moreover have "\<forall>ev \<in> set (evs1 @ evs2).
        (\<exists>k. ev = Fit k) \<or> (\<exists>k. ev = Predict k) \<or> ev \<in> set (score_calls T)"
      using e1 e2 by auto
    ultimately show ?thesis using same1 same2 by (metis (no_types, lifting))
  qed
qed

lemma process_folds_statistics:
  "process_folds env X Y T pd gd folds n dicts es st = (Inr (gt, pr, es'), st') \<Longrightarrow>
   \<exists>new. es' = es @ new \<and> length new = length folds
       \<and> list_all2 (fold_row env X Y T) folds new"
proof (induction folds arbitrary: n dicts es st)
  case Nil
  then show ?case by simp
next
  case (Cons indices rest)
  obtain r1 st1 where pf: "process_fold env X Y T pd gd n indices dicts st = (r1, st1)"
    by (cases "process_fold env X Y T pd gd n indices dicts st")
  show ?case
  proof (cases r1)
    case (Inl e)
    with Cons.prems pf show ?thesis by simp
  next
    case (Inr res)
    obtain gt1 pr1 fs where res: "res = (gt1, pr1, fs)" by (cases res)
    from pf Inr res have "process_fold env X Y T pd gd n indices dicts st = (Inr (gt1, pr1, fs), st1)"
      by simp
    then have fs: "fold_row env X Y T indices fs" by (rule process_fold_statistics)
    from Cons.prems pf Inr res
    have "process_folds env X Y T pd gd rest (n + 1) (gt1, pr1) (es @ [fs]) st1
            = (Inr (gt, pr, es'), st')"
      by simp
    from Cons.IH [OF this] obtain new where
      new: "es' = (es @ [fs]) @ new" "length new = length rest"
      "list_all2 (fold_row env X Y T) rest new" by blast
    have "es' = es @ (fs # new)" "length (fs # new) = length (indices # rest)"
      using new by simp_all
    moreover have "list_all2 (fold_row env X Y T) (indices # rest) (fs # new)"
      using new(3) fs by simp
    ultimately show ?thesis by blast
  qed
qed

lemma write_annotations_effect:
  "write_annotations env directory pr gt opt files ann st = (r, st') \<Longrightarrow>
   X_data st' = X_data st \<and> y_data st' = y_data st \<and> entities st' = entities st
   \<and> directories st' = directories st \<and> calls st' = calls st
   \<and> (\<forall>p. p \<notin> ann_paths directory files \<longrightarrow> ann_files st' p = ann_files st p)"
proof (induction files arbitrary: ann st)
  case Nil
  then show ?case by simp
next
  case (Cons f files)
  show ?case
  proof (cases "\<exists>body preds. raw_text env (raw_path f) = Some body
      \<and> (if opt = ''groundtruth'' then gt (file_name f) else pr (file_name f)) = Some preds")
    case True
    then obtain body preds where t: "raw_text env (raw_path f) = Some body"
      and p: "(if opt = ''groundtruth'' then gt (file_name f) else pr (file_name f)) = Some preds"
      by blast
    let ?st1 = "st\<lparr>ann_files := (ann_files st)
                       (path_join directory (file_name f @ ''.ann'') \<mapsto> (body, preds))\<rparr>"
    from Cons.prems t p
    have "write_annotations env directory pr gt opt files (Some (body, preds)) ?st1 = (r, st')"
      by (simp split: if_splits)
    from Cons.IH [OF this] show ?thesis by (auto simp: ann_paths_def)
  next
    case False
    with Cons.prems have "st' = st" by (auto split: option.splits if_splits)
    then show ?thesis by simp
  qed
qed



lemma create_annotation_directory_effect:
  "snd (create_annotation_directory (StrDir d) ds opt st) = st\<lparr>directories := insert d (directories st)\<rparr>"
  by (auto simp: create_annotation_directory_def Let_def insert_absorb)

lemma predict_annotation_evaluation_effect:
  assumes "predict_annotation_evaluation env directory ds pr gt opt st = (r, st')"
  shows "X_data st' = X_data st \<and> y_data st' = y_data st \<and> entities st' = entities st
   \<and> directories st' = directories st \<and> calls st' = calls st
   \<and> (\<forall>p. p \<notin> ann_paths directory (data_files ds) \<longrightarrow> ann_files st' p = ann_files st p)"
proof -
  obtain r0 where "write_annotations env directory pr gt opt (data_files ds) None st = (r0, st')"
    using assms
    by (auto simp: predict_annotation_evaluation_def split: prod.splits sum.splits option.splits)
  from write_annotations_effect [OF this] show ?thesis .
qed


lemma write_cross_validation_effect:
  assumes "write_cross_validation env ds pr gt st = (r, st')"
  shows "X_data st' = X_data st \<and> y_data st' = y_data st \<and> entities st' = entities st
   \<and> calls st' = calls st
   \<and> directories st' = insert (groundtruth_directory_of ds) (insert (predictions_directory ds) (directories st))
   \<and> (\<forall>p. p \<notin> ann_paths (predictions_directory ds) (data_files ds)
              \<union> ann_paths (groundtruth_directory_of ds) (data_files ds) \<longrightarrow>
          ann_files st' p = ann_files st p)"
proof -
  let ?pd = "predictions_directory ds" and ?gd = "groundtruth_directory_of ds"
  let ?st2 = "st\<lparr>directories := insert ?gd (insert ?pd (directories st))\<rparr>"
  obtain r3 st3 where g: "predict_annotation_evaluation env ?gd ds pr gt ''groundtruth'' ?st2 = (r3, st3)"
    by (cases "predict_annotation_evaluation env ?gd ds pr gt ''groundtruth'' ?st2")
  note e3 = predict_annotation_evaluation_effect [OF g]
  show ?thesis
  proof (cases r3)
    case (Inl e)
    with assms g have "st' = st3"
      by (simp add: write_cross_validation_def Let_def create_annotation_directory_effect
          predictions_directory_def groundtruth_directory_of_def)
    with e3 show ?thesis by simp
  next
    case (Inr a)
    obtain r4 st4 where p: "predict_annotation_evaluation env ?pd ds pr gt ''predictions'' st3 = (r4, st4)"
      by (cases "predict_annotation_evaluation env ?pd ds pr gt ''predictions'' st3")
    note e4 = predict_annotation_evaluation_effect [OF p]
    from assms g Inr p have "st' = st4"
      by (auto simp: write_cross_validation_def Let_def create_annotation_directory_effect
          predictions_directory_def groundtruth_directory_of_def split: sum.splits)
    with e3 e4 show ?thesis by simp
  qed
qed



lemma cross_validate_cases:
  assumes cv: "cross_validate env k tds pd gd a st = (r, st')"
  obtains
    (arguments) "r = Inl ValueError" "st' = st"
      "k \<le> 1 \<or> (pd \<noteq> NoneDir \<and> tds = None) \<or> (gd \<noteq> NoneDir \<and> tds = None)"
  | (extraction) e where "preprocess env tds a st = (Inl e, st')" "r = Inl e"
  | (assertion) "preprocess env tds a st = (Inr (), st')" "X_data st' = None \<or> y_data st' = None"
  | (folds) st1 X Y st3 r' where
      "1 < k"
      "preprocess env tds a st = (Inr (), st1)" "X_data st1 = Some X" "y_data st1 = Some Y"
      "st3 = st1\<lparr>entities := Some (tagset_of Y), calls := calls st1 @ [Split]\<rparr>"
      "(case split env k X Y of
          Inl e \<Rightarrow> (Inl e, st3)
        | Inr folds \<Rightarrow> process_folds env X Y (tagset_of Y) pd gd folds 1
             (empty_by_document X, empty_by_document X) [] st3) = (Inl r', st')"
      "r = Inl r'"
  | (statistics) st1 X Y st3 folds gt pr es e where
      "1 < k"
      "preprocess env tds a st = (Inr (), st1)" "X_data st1 = Some X" "y_data st1 = Some Y"
      "st3 = st1\<lparr>entities := Some (tagset_of Y), calls := calls st1 @ [Split]\<rparr>"
      "split env k X Y = Inr folds"
      "process_folds env X Y (tagset_of Y) pd gd folds 1
             (empty_by_document X, empty_by_document X) [] st3 = (Inr (gt, pr, es), st')"
      "statistics_all_folds_of (to_float env) (tagset_of Y) es = Inl e" "r = Inl e"
  | (finished) st1 X Y st3 folds gt pr es stats st4 where
      "1 < k"
      "preprocess env tds a st = (Inr (), st1)" "X_data st1 = Some X" "y_data st1 = Some Y"
      "st3 = st1\<lparr>entities := Some (tagset_of Y), calls := calls st1 @ [Split]\<rparr>"
      "split env k X Y = Inr folds"
      "process_folds env X Y (tagset_of Y) pd gd folds 1
             (empty_by_document X, empty_by_document X) [] st3 = (Inr (gt, pr, es), st4)"
      "statistics_all_folds_of (to_float env) (tagset_of Y) es = Inr stats"
      "\<not> truthy pd" "st' = st4"
      "r = Inr \<lparr>returned = None, res_tagset = tagset_of Y, res_evaluation_statistics = es,
                res_statistics_all_folds = stats, res_groundtruth_by_document = gt,
                res_preds_by_document = pr\<rparr>"
  | (written) st1 X Y st3 folds gt pr es stats st4 ds rw where
      "1 < k"
      "preprocess env tds a st = (Inr (), st1)" "X_data st1 = Some X" "y_data st1 = Some Y"
      "st3 = st1\<lparr>entities := Some (tagset_of Y), calls := calls st1 @ [Split]\<rparr>"
      "split env k X Y = Inr folds"
      "process_folds env X Y (tagset_of Y) pd gd folds 1
             (empty_by_document X, empty_by_document X) [] st3 = (Inr (gt, pr, es), st4)"
      "statistics_all_folds_of (to_float env) (tagset_of Y) es = Inr stats"
      "truthy pd" "tds = Some ds"
      "write_cross_validation env ds pr gt st4 = (rw, st')"
      "r = (case rw of Inl e \<Rightarrow> Inl e
            | Inr directory \<Rightarrow>
              Inr \<lparr>returned = Some directory, res_tagset = tagset_of Y, res_evaluation_statistics = es,
                res_statistics_all_folds = stats, res_groundtruth_by_document = gt,
                res_preds_by_document = pr\<rparr>)"
proof (cases "k \<le> 1 \<or> (pd \<noteq> NoneDir \<and> tds = None) \<or> (gd \<noteq> NoneDir \<and> tds = None)")
  case True
  with cv have "r = Inl ValueError" "st' = st"
    by (auto simp: cross_validate_def split: if_splits)
  with True show ?thesis by (intro arguments)
next
  case ok: False
  obtain r1 st1 where pre: "preprocess env tds a st = (r1, st1)"
    by (cases "preprocess env tds a st")
  show ?thesis
  proof (cases r1)
    case (Inl e)
    with cv ok pre have "r = Inl e" "st' = st1" by (auto simp: cross_validate_def)
    with pre Inl show ?thesis by (intro extraction [of e]) simp_all
  next
    case (Inr u)
    then have pre': "preprocess env tds a st = (Inr (), st1)" using pre by simp
    show ?thesis
    proof (cases "\<exists>X Y. X_data st1 = Some X \<and> y_data st1 = Some Y")
      case False
      with cv ok pre' have "st' = st1"
        by (auto simp: cross_validate_def split: option.splits)
      with pre' False show ?thesis by (intro assertion) auto
    next
      case True
      then obtain X Y where XY: "X_data st1 = Some X" "y_data st1 = Some Y" by blast
      define st3 where "st3 = st1\<lparr>entities := Some (tagset_of Y), calls := calls st1 @ [Split]\<rparr>"
      have k: "1 < k" using ok by simp
      have unf: "cross_validate env k tds pd gd a st =
        (case split env k X Y of
           Inl e \<Rightarrow> (Inl e, st3)
         | Inr folds \<Rightarrow>
             (case process_folds env X Y (tagset_of Y) pd gd folds 1
                     (empty_by_document X, empty_by_document X) [] st3 of
                (Inl e, st4) \<Rightarrow> (Inl e, st4)
              | (Inr (gt, pr, es), st4) \<Rightarrow>
                  (case statistics_all_folds_of (to_float env) (tagset_of Y) es of
                     Inl e \<Rightarrow> (Inl e, st4)
                   | Inr stats \<Rightarrow>
                       if truthy pd then
                         (case tds of
                            None \<Rightarrow> (Inl AttributeError, st4)
                          | Some ds \<Rightarrow>
                              (case write_cross_validation env ds pr gt st4 of
                                 (Inl e, st5) \<Rightarrow> (Inl e, st5)
                               | (Inr directory, st5) \<Rightarrow>
                                   (Inr \<lparr>returned = Some directory, res_tagset = tagset_of Y,
                                        res_evaluation_statistics = es,
                                        res_statistics_all_folds = stats,
                                        res_groundtruth_by_document = gt,
                                        res_preds_by_document = pr\<rparr>, st5)))
                       else (Inr \<lparr>returned = None, res_tagset = tagset_of Y,
                                  res_evaluation_statistics = es,
                                  res_statistics_all_folds = stats,
                                  res_groundtruth_by_document = gt,
                                  res_preds_by_document = pr\<rparr>, st4))))"
      proof (cases tds)
        case None
        with ok have "pd = NoneDir" "gd = NoneDir" by auto
        with None k pre' XY show ?thesis unfolding st3_def cross_validate_def
          by (simp add: Let_def split: sum.split prod.split)
      next
        case (Some ds)
        with k pre' XY show ?thesis unfolding st3_def cross_validate_def
          by (simp add: Let_def split: sum.split prod.split)
      qed
      show ?thesis
      proof (cases "split env k X Y")
        case (Inl e)
        with cv unf have "r = Inl e" "st' = st3" by simp_all
        then show ?thesis
          using folds [OF k pre' XY st3_def, of e] Inl by simp
      next
        case sp: (Inr folds)
        obtain r2 st4 where pf0: "process_folds env X Y (tagset_of Y) pd gd folds 1
             (empty_by_document X, empty_by_document X) [] st3 = (r2, st4)"
          by (cases "process_folds env X Y (tagset_of Y) pd gd folds 1
             (empty_by_document X, empty_by_document X) [] st3")
        show ?thesis
        proof (cases r2)
          case (Inl e)
          with cv unf sp pf0 have "r = Inl e" "st' = st4" by simp_all
          then show ?thesis
            using folds [OF k pre' XY st3_def, of e] sp pf0 Inl by simp
        next
          case (Inr res)
        obtain gt pr es where res: "res = (gt, pr, es)" by (cases res)
        have pf: "process_folds env X Y (tagset_of Y) pd gd folds 1
             (empty_by_document X, empty_by_document X) [] st3 = (Inr (gt, pr, es), st4)"
          using pf0 Inr res by simp
        show ?thesis
        proof (cases "statistics_all_folds_of (to_float env) (tagset_of Y) es")
          case (Inl e)
          have "r = Inl e \<and> st' = st4"
            using cv unf sp pf Inl by simp
          with pf Inl show ?thesis
            using statistics [OF k pre' XY st3_def sp, of gt pr es e] by simp
        next
          case stats: (Inr stats)
          show ?thesis
          proof (cases "truthy pd")
            case False
            have "st' = st4 \<and> r = Inr \<lparr>returned = None, res_tagset = tagset_of Y,
                res_evaluation_statistics = es,
                res_statistics_all_folds = stats, res_groundtruth_by_document = gt,
                res_preds_by_document = pr\<rparr>"
              using cv unf sp pf stats False by simp
            then show ?thesis
              using finished [OF k pre' XY st3_def sp pf stats False] by simp
          next
            case True
            then have "pd \<noteq> NoneDir" by auto
            with ok obtain ds where ds: "tds = Some ds" by auto
            obtain rw stw where w: "write_cross_validation env ds pr gt st4 = (rw, stw)"
              by (cases "write_cross_validation env ds pr gt st4")
            have "st' = stw \<and> r = (case rw of Inl e \<Rightarrow> Inl e
              | Inr directory \<Rightarrow>
              Inr \<lparr>returned = Some directory, res_tagset = tagset_of Y, res_evaluation_statistics = es,
                res_statistics_all_folds = stats, res_groundtruth_by_document = gt,
                res_preds_by_document = pr\<rparr>)"
              using cv unf sp pf stats True ds w by (auto split: sum.splits)
            then show ?thesis
              using written [OF k pre' XY st3_def sp pf stats True ds, of rw] w by simp
          qed
        qed
        qed
      qed
    qed
  qed
qed

lemma tagset_inner:
  "foldl (\<lambda>tagset tag. if tag \<noteq> ''O'' \<and> tag \<noteq> '''' then insert tag tagset else tagset) S tags
   = S \<union> {t \<in> set tags. t \<noteq> ''O'' \<and> t \<noteq> ''''}"
  by (induction tags arbitrary: S) auto

lemma tagset_outer:
  "foldl (\<lambda>tagset tags.
            foldl (\<lambda>tagset tag. if tag \<noteq> ''O'' \<and> tag \<noteq> '''' then insert tag tagset else tagset)
              tagset tags) S Y
   = S \<union> {t. (\<exists>tags \<in> set Y. t \<in> set tags) \<and> t \<noteq> ''O'' \<and> t \<noteq> ''''}"
  by (induction Y arbitrary: S) (auto simp: tagset_inner)

lemma tagset_of_set:
  "set (tagset_of Y) = {t. (\<exists>tags \<in> set Y. t \<in> set tags) \<and> t \<noteq> ''O'' \<and> t \<noteq> ''''}"
proof -
  have "finite {t. (\<exists>tags \<in> set Y. t \<in> set tags) \<and> t \<noteq> ''O'' \<and> t \<noteq> ''''}"
    by (rule finite_subset [of _ "\<Union> (set ` set Y)"]) auto
  then show ?thesis by (simp add: tagset_of_def tagset_outer)
qed

lemma tagset_of_sorted: "sorted (tagset_of Y) \<and> distinct (tagset_of Y)"
  by (simp add: tagset_of_def)

lemma dom_foldl_update:
  "dom (foldl (\<lambda>m label. m(label \<mapsto> f label)) m0 labels) = dom m0 \<union> set labels"
  by (induction labels arbitrary: m0) auto

lemma dom_fold_scores:
  "dom (fold_scores env T y_test y_pred) = set T \<union> {''system''}"
  by (auto simp: fold_scores_def dom_def)

lemma process_folds_dom:
  assumes "process_folds env X Y T pd gd folds n dicts [] st = (Inr (gt, pr, es), st')"
  shows "\<forall>fs \<in> set es. dom fs = set T \<union> {''system''}"
proof
  fix fs assume fs: "fs \<in> set es"
  from process_folds_statistics [OF assms] obtain new where
    "es = [] @ new" and all: "list_all2 (fold_row env X Y T) folds new"
    by blast
  with fs obtain i where i: "i < length new" "new ! i = fs" by (auto simp: in_set_conv_nth)
  from all i have "fold_row env X Y T (folds ! i) fs" by (auto simp: list_all2_conv_all_nth)
  then obtain y_test y_pred where "fs = fold_scores env T y_test y_pred"
    unfolding fold_row_def by blast
  then show "dom fs = set T \<union> {''system''}" by (simp only: dom_fold_scores)
qed

lemma folds_trace:
  assumes st3: "calls st3 = calls st @ pre @ [Split]"
    and pre: "\<forall>ev \<in> set pre. \<exists>f. ev = ExtractFeatures f"
    and eff: "\<exists>evs. calls st' = calls st3 @ evs
         \<and> (\<forall>ev \<in> set evs. (\<exists>k. ev = Fit k) \<or> (\<exists>k. ev = Predict k) \<or> ev \<in> set (score_calls T))"
  shows "\<exists>evs. calls st' = calls st @ evs
         \<and> (\<forall>ls. Score ls \<in> set evs \<longrightarrow> ls = T \<or> (\<exists>l \<in> set T. ls = [l]))"
proof -
  from eff obtain evs where c: "calls st' = calls st3 @ evs"
    and e: "\<forall>ev \<in> set evs. (\<exists>k. ev = Fit k) \<or> (\<exists>k. ev = Predict k) \<or> ev \<in> set (score_calls T)"
    by blast
  have c': "calls st' = calls st @ (pre @ [Split] @ evs)" by (simp add: c st3)
  have "ls = T \<or> (\<exists>l \<in> set T. ls = [l])" if "Score ls \<in> set (pre @ [Split] @ evs)" for ls
  proof -
    from that pre have "Score ls \<in> set evs" by auto
    with e have "Score ls \<in> set (score_calls T)" by auto
    from score_calls_set [OF this] show ?thesis by auto
  qed
  with c' show ?thesis by blast
qed

section \<open>The small run, evaluated\<close>

lemma example_run_returns:
  "cross_validate example_env 2 (Some example_dataset) (StrDir ''out'') (StrDir ''gt'') False
       example_state = (Inr (projr (fst example_run)), snd example_run)"
proof -
  have "\<not> isl (fst example_run)" by code_simp
  then have "fst example_run = Inr (projr (fst example_run))" by simp
  then have e: "example_run = (Inr (projr (fst example_run)), snd example_run)"
    by (metis prod.collapse)
  show ?thesis unfolding example_run_def [symmetric] by (rule e)
qed

lemma example_run_y_data:
  "y_data (snd example_run) = Some [[''O'', ''Drug''], [''Dose''], [''Drug'', ''O''], [''O'']]"
  by code_simp

lemma example_tagset:
  "tagset_of [[''O'', ''Drug''], [''Dose''], [''Drug'', ''O''], [''O'']] = [''Dose'', ''Drug'']"
  by code_simp

section \<open>The tagset and the metric calls\<close>

text \<open>
  The calls of a run, whatever its outcome: every metric call was given the tagset or one
  label of it.
\<close>

lemma tagset_trace:
  assumes cv: "cross_validate env num_folds training_dataset prediction_directory
                 groundtruth_directory asynchronous st = (r, st')"
  shows "(\<exists>evs. calls st' = calls st @ evs
           \<and> (\<forall>labels. Score labels \<in> set evs \<longrightarrow>
                (\<exists>Y. y_data st' = Some Y \<and> entities st' = Some (tagset_of Y)
                   \<and> (labels = tagset_of Y \<or> (\<exists>label \<in> set (tagset_of Y). labels = [label])))))
       \<and> (\<forall>res. r = Inr res \<longrightarrow>
             (\<exists>Y. y_data st' = Some Y \<and> res_tagset res = tagset_of Y
                \<and> (\<forall>fold_statistics \<in> set (res_evaluation_statistics res).
                      dom fold_statistics = set (tagset_of Y) \<union> {''system''})))
       \<and> (\<forall>Y. sorted (tagset_of Y) \<and> distinct (tagset_of Y)
             \<and> set (tagset_of Y) = {t. (\<exists>tags \<in> set Y. t \<in> set tags) \<and> t \<noteq> ''O'' \<and> t \<noteq> ''''})"
proof -
  let ?trace = "\<lambda>st'. \<exists>evs. calls st' = calls st @ evs
           \<and> (\<forall>labels. Score labels \<in> set evs \<longrightarrow>
                (\<exists>Y. y_data st' = Some Y \<and> entities st' = Some (tagset_of Y)
                   \<and> (labels = tagset_of Y \<or> (\<exists>label \<in> set (tagset_of Y). labels = [label]))))"
  let ?res = "\<lambda>r st'. \<forall>res. r = Inr res \<longrightarrow>
             (\<exists>Y. y_data st' = Some Y \<and> res_tagset res = tagset_of Y
                \<and> (\<forall>fold_statistics \<in> set (res_evaluation_statistics res).
                      dom fold_statistics = set (tagset_of Y) \<union> {''system''}))"
  have pre_only: "?trace st'"
    if "\<exists>evs. calls st' = calls st @ evs \<and> (\<forall>ev \<in> set evs. \<exists>f. ev = ExtractFeatures f)"
  proof -
    from that obtain evs where c: "calls st' = calls st @ evs"
      and e: "\<forall>ev \<in> set evs. \<exists>f. ev = ExtractFeatures f" by blast
    from e have "\<forall>labels. Score labels \<notin> set evs" by auto
    with c show ?thesis by blast
  qed
  have after: "?trace st'"
    if pre: "preprocess env training_dataset asynchronous st = (Inr (), st1)"
      and Y: "y_data st1 = Some Y"
      and st3: "st3 = st1\<lparr>entities := Some (tagset_of Y), calls := calls st1 @ [Split]\<rparr>"
      and eff: "y_data st' = y_data st3 \<and> entities st' = entities st3
         \<and> (\<exists>evs. calls st' = calls st3 @ evs
         \<and> (\<forall>ev \<in> set evs. (\<exists>k. ev = Fit k) \<or> (\<exists>k. ev = Predict k)
                \<or> ev \<in> set (score_calls (tagset_of Y))))"
    for st1 st3 Y
  proof -
    from preprocess_effect [OF pre] obtain evs0 where
      c0: "calls st1 = calls st @ evs0" and e0: "\<forall>ev \<in> set evs0. \<exists>f. ev = ExtractFeatures f"
      by blast
    have c3: "calls st3 = calls st @ evs0 @ [Split]" by (simp add: st3 c0)
    from eff have eff': "\<exists>evs. calls st' = calls st3 @ evs
         \<and> (\<forall>ev \<in> set evs. (\<exists>k. ev = Fit k) \<or> (\<exists>k. ev = Predict k)
                \<or> ev \<in> set (score_calls (tagset_of Y)))" by blast
    from folds_trace [OF c3 e0 eff'] obtain evs where
      c: "calls st' = calls st @ evs"
      and e: "\<forall>ls. Score ls \<in> set evs \<longrightarrow>
                ls = tagset_of Y \<or> (\<exists>l \<in> set (tagset_of Y). ls = [l])" by blast
    have "y_data st' = Some Y" "entities st' = Some (tagset_of Y)"
      using eff Y by (simp_all add: st3)
    with c e show ?thesis by blast
  qed
  have chars: "\<forall>Y. sorted (tagset_of Y) \<and> distinct (tagset_of Y)
             \<and> set (tagset_of Y) = {t. (\<exists>tags \<in> set Y. t \<in> set tags) \<and> t \<noteq> ''O'' \<and> t \<noteq> ''''}"
    using tagset_of_sorted tagset_of_set by blast
  have "?trace st' \<and> ?res r st'"
    using cv
  proof (cases rule: cross_validate_cases)
    case arguments
    then have "calls st' = calls st @ []" by simp
    then have "?trace st'" by (intro pre_only) auto
    with arguments show ?thesis by simp
  next
    case (extraction e)
    from preprocess_effect [OF extraction(1)] have "?trace st'" by (intro pre_only) blast
    with extraction show ?thesis by simp
  next
    case assertion
    from preprocess_effect [OF assertion(1)] have "?trace st'" by (intro pre_only) blast
    moreover have "r \<noteq> Inr res" for res
      using cv assertion 
      by (auto simp: cross_validate_def split: if_splits option.splits)
    ultimately show ?thesis by blast
  next
    case (folds st1 X Y st3 r')
    have "y_data st' = y_data st3 \<and> entities st' = entities st3
         \<and> (\<exists>evs. calls st' = calls st3 @ evs
         \<and> (\<forall>ev \<in> set evs. (\<exists>k. ev = Fit k) \<or> (\<exists>k. ev = Predict k)
                \<or> ev \<in> set (score_calls (tagset_of Y))))"
    proof (cases "split env num_folds X Y")
      case (Inl e)
      with folds(6) have "st' = st3" by simp
      then show ?thesis by simp
    next
      case (Inr fs)
      with folds(6) have "process_folds env X Y (tagset_of Y) prediction_directory
          groundtruth_directory fs 1 (empty_by_document X, empty_by_document X) [] st3
          = (Inl r', st')" by simp
      from process_folds_effect [OF this] show ?thesis by blast
    qed
    from after [OF folds(2) folds(4) folds(5) this] folds(7) show ?thesis by simp
  next
    case (statistics st1 X Y st3 fs gt pr es e)
    from process_folds_effect [OF statistics(7)]
    have "y_data st' = y_data st3 \<and> entities st' = entities st3
         \<and> (\<exists>evs. calls st' = calls st3 @ evs
         \<and> (\<forall>ev \<in> set evs. (\<exists>k. ev = Fit k) \<or> (\<exists>k. ev = Predict k)
                \<or> ev \<in> set (score_calls (tagset_of Y))))" by blast
    from after [OF statistics(2) statistics(4) statistics(5) this] statistics(9)
    show ?thesis by simp
  next
    case (finished st1 X Y st3 fs gt pr es stats st4)
    note eff = process_folds_effect [OF finished(7)]
    from eff finished(10)
    have e: "y_data st' = y_data st3 \<and> entities st' = entities st3
         \<and> (\<exists>evs. calls st' = calls st3 @ evs
         \<and> (\<forall>ev \<in> set evs. (\<exists>k. ev = Fit k) \<or> (\<exists>k. ev = Predict k)
                \<or> ev \<in> set (score_calls (tagset_of Y))))" by blast
    have y: "y_data st' = Some Y" using e finished(4) finished(5) by simp
    have "\<forall>fs \<in> set es. dom fs = set (tagset_of Y) \<union> {''system''}"
      using finished(7) by (rule process_folds_dom)
    with y finished(11) have "?res r st'" by simp
    with after [OF finished(2) finished(4) finished(5) e] show ?thesis by simp
  next
    case (written st1 X Y st3 fs gt pr es stats st4 ds rw)
    note eff = process_folds_effect [OF written(7)]
    note weff = write_cross_validation_effect [OF written(11)]
    from eff weff
    have e: "y_data st' = y_data st3 \<and> entities st' = entities st3
         \<and> (\<exists>evs. calls st' = calls st3 @ evs
         \<and> (\<forall>ev \<in> set evs. (\<exists>k. ev = Fit k) \<or> (\<exists>k. ev = Predict k)
                \<or> ev \<in> set (score_calls (tagset_of Y))))" by simp
    have y: "y_data st' = Some Y" using e written(4) written(5) by simp
    have "\<forall>fs \<in> set es. dom fs = set (tagset_of Y) \<union> {''system''}"
      using written(7) by (rule process_folds_dom)
    with y written(12) have "?res r st'" by (auto split: sum.splits)
    with after [OF written(2) written(4) written(5) e] show ?thesis by simp
  qed
  with chars show ?thesis by blast
qed

lemma fold_row_explicit:
  assumes "fold_row env X Y T indices fs"
  shows "\<exists>X_test y_test y_pred.
           collect (get X) (snd indices) = Inr X_test
         \<and> collect (get Y) (snd indices) = Inr y_test
         \<and> (\<exists>X_train y_train learner.
               collect (get X) (fst indices) = Inr X_train
             \<and> collect (get Y) (fst indices) = Inr y_train
             \<and> fit env (map fst X_train) y_train = Inr learner
             \<and> predict env learner (map fst X_test) = Inr y_pred)
         \<and> dom fs = set T \<union> {''system''}
         \<and> fs ''system'' = Some \<lparr>recall = flat_recall_score env y_test y_pred T,
                                  precision = flat_precision_score env y_test y_pred T,
                                  f1 = flat_f1_score env y_test y_pred T\<rparr>
         \<and> (\<forall>label \<in> set T. label \<noteq> ''system'' \<longrightarrow>
               fs label = Some \<lparr>recall = flat_recall_score env y_test y_pred [label],
                                 precision = flat_precision_score env y_test y_pred [label],
                                 f1 = flat_f1_score env y_test y_pred [label]\<rparr>)"
proof -
  from assms obtain X_train y_train X_test y_test learner y_pred where
    c: "collect (get X) (fst indices) = Inr X_train" "collect (get Y) (fst indices) = Inr y_train"
       "collect (get X) (snd indices) = Inr X_test" "collect (get Y) (snd indices) = Inr y_test"
    and f: "fit env (map fst X_train) y_train = Inr learner"
    and p: "predict env learner (map fst X_test) = Inr y_pred"
    and fs: "fs = fold_scores env T y_test y_pred"
    unfolding fold_row_def by blast
  have d: "dom fs = set T \<union> {''system''}" by (simp only: fs dom_fold_scores)
  have s: "fs ''system'' = Some \<lparr>recall = flat_recall_score env y_test y_pred T,
                                  precision = flat_precision_score env y_test y_pred T,
                                  f1 = flat_f1_score env y_test y_pred T\<rparr>"
    by (simp add: fs fold_scores_def scores_of_def)
  have l: "\<forall>label \<in> set T. label \<noteq> ''system'' \<longrightarrow>
               fs label = Some \<lparr>recall = flat_recall_score env y_test y_pred [label],
                                 precision = flat_precision_score env y_test y_pred [label],
                                 f1 = flat_f1_score env y_test y_pred [label]\<rparr>"
    by (simp add: fs fold_scores_def scores_of_def)
  have t: "\<exists>X_train y_train learner.
               collect (get X) (fst indices) = Inr X_train
             \<and> collect (get Y) (fst indices) = Inr y_train
             \<and> fit env (map fst X_train) y_train = Inr learner
             \<and> predict env learner (map fst X_test) = Inr y_pred"
    using c f p by (intro exI conjI)
  from c(3) c(4) t d s l show ?thesis
    by - (rule exI [of _ X_test], rule exI [of _ y_test], rule exI [of _ y_pred],
          intro conjI, assumption+)
qed

lemma folds_rows:
  assumes "process_folds env X Y T pd gd folds n dicts [] st = (Inr (gt, pr, es), st')"
  shows "length es = length folds \<and> (\<forall>i < length folds. fold_row env X Y T (folds ! i) (es ! i))"
proof -
  from process_folds_statistics [OF assms] obtain new where
    N: "es = [] @ new \<and> length new = length folds \<and> list_all2 (fold_row env X Y T) folds new" ..
  then have es: "es = new" by simp
  from N have "list_all2 (fold_row env X Y T) folds es" by (simp add: es)
  then show ?thesis by (simp add: list_all2_conv_all_nth)
qed

lemma cross_validate_rows:
  assumes cv: "cross_validate env num_folds tds pd gd a st = (Inr res, st')"
  shows "\<exists>X Y folds. X_data st' = Some X \<and> y_data st' = Some Y
           \<and> split env num_folds X Y = Inr folds
           \<and> res_tagset res = tagset_of Y
           \<and> length (res_evaluation_statistics res) = length folds
           \<and> (\<forall>i < length folds.
                 fold_row env X Y (tagset_of Y) (folds ! i) (res_evaluation_statistics res ! i))"
  using cv
proof (cases rule: cross_validate_cases)
  case arguments
  then show ?thesis by simp
next
  case (extraction e)
  then show ?thesis by simp
next
  case assertion
  with cv show ?thesis
    by (auto simp: cross_validate_def split: if_splits option.splits)
next
  case (folds st1 X Y st3 r')
  then show ?thesis by simp
next
  case (statistics st1 X Y st3 fs gt pr es e)
  then show ?thesis by simp
next
  case (finished st1 X Y st3 fs gt pr es stats st4)
  from process_folds_effect [OF finished(7)] finished(10)
  have "X_data st' = X_data st3" "y_data st' = y_data st3" by simp_all
  then have xy: "X_data st' = Some X" "y_data st' = Some Y"
    using finished(3) finished(4) by (simp_all add: finished(5))
  note rows = folds_rows [OF finished(7)]
  from finished(11) have res: "res_tagset res = tagset_of Y" "res_evaluation_statistics res = es"
    by auto
  from xy finished(6) res rows show ?thesis
    by - (rule exI [of _ X], rule exI [of _ Y], rule exI [of _ fs], simp)
next
  case (written st1 X Y st3 fs gt pr es stats st4 ds rw)
  from process_folds_effect [OF written(7)] write_cross_validation_effect [OF written(11)]
  have "X_data st' = X_data st3" "y_data st' = y_data st3" by simp_all
  then have xy: "X_data st' = Some X" "y_data st' = Some Y"
    using written(3) written(4) by (simp_all add: written(5))
  note rows = folds_rows [OF written(7)]
  from written(12) have res: "res_tagset res = tagset_of Y" "res_evaluation_statistics res = es"
    by (auto split: sum.splits)
  from xy written(6) res rows show ?thesis
    by - (rule exI [of _ X], rule exI [of _ Y], rule exI [of _ fs], simp)
qed

text \<open>
  C5. The tagset is computed once, from all the extracted labels, before the splitter is
  called, and stored in \<^verbatim>\<open>pipeline.entities\<close>: it is sorted, without duplicates,
  and holds exactly the labels of the data other than \<open>O\<close> and the empty string.
  In every call of \<^verbatim>\<open>cross_validate\<close>, whether it returns or raises, each metric
  call made (\<^verbatim>\<open>score_all\<close> records the labels it passes to the three metric
  functions) was given either this whole tagset or one label of it. When the call returns,
  the statistics of fold \<open>i\<close> are those of the test labels of fold \<open>i\<close> of the
  splitter and of the predictions of the learner fitted on its training part: the row of
  \<open>system\<close> is the three metrics with \<^verbatim>\<open>labels=tagset\<close>, the row of every
  other label of the tagset is the three metrics with \<^verbatim>\<open>labels=[label]\<close>, and there
  is no other row.
\<close>

theorem tagset_derived_once:
  assumes cv: "cross_validate env num_folds training_dataset prediction_directory
                 groundtruth_directory asynchronous st = (r, st')"
  shows "(\<exists>evs. calls st' = calls st @ evs
           \<and> (\<forall>labels. Score labels \<in> set evs \<longrightarrow>
                (\<exists>Y. y_data st' = Some Y \<and> entities st' = Some (tagset_of Y)
                   \<and> (labels = tagset_of Y \<or> (\<exists>label \<in> set (tagset_of Y). labels = [label])))))
       \<and> (\<forall>res. r = Inr res \<longrightarrow>
             (\<exists>X Y folds. X_data st' = Some X \<and> y_data st' = Some Y
                \<and> split env num_folds X Y = Inr folds
                \<and> res_tagset res = tagset_of Y
                \<and> length (res_evaluation_statistics res) = length folds
                \<and> (\<forall>i < length folds. \<exists>X_test y_test y_pred.
                      collect (get X) (snd (folds ! i)) = Inr X_test
                    \<and> collect (get Y) (snd (folds ! i)) = Inr y_test
                    \<and> (\<exists>X_train y_train learner.
                          collect (get X) (fst (folds ! i)) = Inr X_train
                        \<and> collect (get Y) (fst (folds ! i)) = Inr y_train
                        \<and> fit env (map fst X_train) y_train = Inr learner
                        \<and> predict env learner (map fst X_test) = Inr y_pred)
                    \<and> dom (res_evaluation_statistics res ! i) = set (tagset_of Y) \<union> {''system''}
                    \<and> (res_evaluation_statistics res ! i) ''system''
                        = Some \<lparr>recall = flat_recall_score env y_test y_pred (tagset_of Y),
                                 precision = flat_precision_score env y_test y_pred (tagset_of Y),
                                 f1 = flat_f1_score env y_test y_pred (tagset_of Y)\<rparr>
                    \<and> (\<forall>label \<in> set (tagset_of Y). label \<noteq> ''system'' \<longrightarrow>
                          (res_evaluation_statistics res ! i) label
                            = Some \<lparr>recall = flat_recall_score env y_test y_pred [label],
                                     precision = flat_precision_score env y_test y_pred [label],
                                     f1 = flat_f1_score env y_test y_pred [label]\<rparr>))))
       \<and> (\<forall>Y. sorted (tagset_of Y) \<and> distinct (tagset_of Y)
             \<and> set (tagset_of Y) = {t. (\<exists>tags \<in> set Y. t \<in> set tags) \<and> t \<noteq> ''O'' \<and> t \<noteq> ''''})"
proof (intro conjI)
  note T = tagset_trace [OF cv]
  show "\<exists>evs. calls st' = calls st @ evs
           \<and> (\<forall>labels. Score labels \<in> set evs \<longrightarrow>
                (\<exists>Y. y_data st' = Some Y \<and> entities st' = Some (tagset_of Y)
                   \<and> (labels = tagset_of Y \<or> (\<exists>label \<in> set (tagset_of Y). labels = [label]))))"
    by (rule T [THEN conjunct1])
  show "\<forall>Y. sorted (tagset_of Y) \<and> distinct (tagset_of Y)
             \<and> set (tagset_of Y) = {t. (\<exists>tags \<in> set Y. t \<in> set tags) \<and> t \<noteq> ''O'' \<and> t \<noteq> ''''}"
    by (rule T [THEN conjunct2, THEN conjunct2])
  show "\<forall>res. r = Inr res \<longrightarrow>
             (\<exists>X Y folds. X_data st' = Some X \<and> y_data st' = Some Y
                \<and> split env num_folds X Y = Inr folds
                \<and> res_tagset res = tagset_of Y
                \<and> length (res_evaluation_statistics res) = length folds
                \<and> (\<forall>i < length folds. \<exists>X_test y_test y_pred.
                      collect (get X) (snd (folds ! i)) = Inr X_test
                    \<and> collect (get Y) (snd (folds ! i)) = Inr y_test
                    \<and> (\<exists>X_train y_train learner.
                          collect (get X) (fst (folds ! i)) = Inr X_train
                        \<and> collect (get Y) (fst (folds ! i)) = Inr y_train
                        \<and> fit env (map fst X_train) y_train = Inr learner
                        \<and> predict env learner (map fst X_test) = Inr y_pred)
                    \<and> dom (res_evaluation_statistics res ! i) = set (tagset_of Y) \<union> {''system''}
                    \<and> (res_evaluation_statistics res ! i) ''system''
                        = Some \<lparr>recall = flat_recall_score env y_test y_pred (tagset_of Y),
                                 precision = flat_precision_score env y_test y_pred (tagset_of Y),
                                 f1 = flat_f1_score env y_test y_pred (tagset_of Y)\<rparr>
                    \<and> (\<forall>label \<in> set (tagset_of Y). label \<noteq> ''system'' \<longrightarrow>
                          (res_evaluation_statistics res ! i) label
                            = Some \<lparr>recall = flat_recall_score env y_test y_pred [label],
                                     precision = flat_precision_score env y_test y_pred [label],
                                     f1 = flat_f1_score env y_test y_pred [label]\<rparr>)))"
  proof (intro allI impI)
    fix res assume "r = Inr res"
    with cv have cv': "cross_validate env num_folds training_dataset prediction_directory
                 groundtruth_directory asynchronous st = (Inr res, st')" by simp
    from cross_validate_rows [OF cv'] obtain X Y folds where
      R: "X_data st' = Some X \<and> y_data st' = Some Y
           \<and> split env num_folds X Y = Inr folds
           \<and> res_tagset res = tagset_of Y
           \<and> length (res_evaluation_statistics res) = length folds
           \<and> (\<forall>i < length folds.
                 fold_row env X Y (tagset_of Y) (folds ! i) (res_evaluation_statistics res ! i))"
      by (elim exE) (rule that)
    note rows = R [THEN conjunct2, THEN conjunct2, THEN conjunct2, THEN conjunct2, THEN conjunct2]
    have explicit: "\<forall>i < length folds. \<exists>X_test y_test y_pred.
                      collect (get X) (snd (folds ! i)) = Inr X_test
                    \<and> collect (get Y) (snd (folds ! i)) = Inr y_test
                    \<and> (\<exists>X_train y_train learner.
                          collect (get X) (fst (folds ! i)) = Inr X_train
                        \<and> collect (get Y) (fst (folds ! i)) = Inr y_train
                        \<and> fit env (map fst X_train) y_train = Inr learner
                        \<and> predict env learner (map fst X_test) = Inr y_pred)
                    \<and> dom (res_evaluation_statistics res ! i) = set (tagset_of Y) \<union> {''system''}
                    \<and> (res_evaluation_statistics res ! i) ''system''
                        = Some \<lparr>recall = flat_recall_score env y_test y_pred (tagset_of Y),
                                 precision = flat_precision_score env y_test y_pred (tagset_of Y),
                                 f1 = flat_f1_score env y_test y_pred (tagset_of Y)\<rparr>
                    \<and> (\<forall>label \<in> set (tagset_of Y). label \<noteq> ''system'' \<longrightarrow>
                          (res_evaluation_statistics res ! i) label
                            = Some \<lparr>recall = flat_recall_score env y_test y_pred [label],
                                     precision = flat_precision_score env y_test y_pred [label],
                                     f1 = flat_f1_score env y_test y_pred [label]\<rparr>)"
    proof (intro allI impI)
      fix i assume "i < length folds"
      with rows have "fold_row env X Y (tagset_of Y) (folds ! i) (res_evaluation_statistics res ! i)"
        by (rule_tac rows [rule_format])
      then show "\<exists>X_test y_test y_pred.
                      collect (get X) (snd (folds ! i)) = Inr X_test
                    \<and> collect (get Y) (snd (folds ! i)) = Inr y_test
                    \<and> (\<exists>X_train y_train learner.
                          collect (get X) (fst (folds ! i)) = Inr X_train
                        \<and> collect (get Y) (fst (folds ! i)) = Inr y_train
                        \<and> fit env (map fst X_train) y_train = Inr learner
                        \<and> predict env learner (map fst X_test) = Inr y_pred)
                    \<and> dom (res_evaluation_statistics res ! i) = set (tagset_of Y) \<union> {''system''}
                    \<and> (res_evaluation_statistics res ! i) ''system''
                        = Some \<lparr>recall = flat_recall_score env y_test y_pred (tagset_of Y),
                                 precision = flat_precision_score env y_test y_pred (tagset_of Y),
                                 f1 = flat_f1_score env y_test y_pred (tagset_of Y)\<rparr>
                    \<and> (\<forall>label \<in> set (tagset_of Y). label \<noteq> ''system'' \<longrightarrow>
                          (res_evaluation_statistics res ! i) label
                            = Some \<lparr>recall = flat_recall_score env y_test y_pred [label],
                                     precision = flat_precision_score env y_test y_pred [label],
                                     f1 = flat_f1_score env y_test y_pred [label]\<rparr>)"
        by (rule fold_row_explicit)
    qed
    from R explicit show "\<exists>X Y folds. X_data st' = Some X \<and> y_data st' = Some Y
                \<and> split env num_folds X Y = Inr folds
                \<and> res_tagset res = tagset_of Y
                \<and> length (res_evaluation_statistics res) = length folds
                \<and> (\<forall>i < length folds. \<exists>X_test y_test y_pred.
                      collect (get X) (snd (folds ! i)) = Inr X_test
                    \<and> collect (get Y) (snd (folds ! i)) = Inr y_test
                    \<and> (\<exists>X_train y_train learner.
                          collect (get X) (fst (folds ! i)) = Inr X_train
                        \<and> collect (get Y) (fst (folds ! i)) = Inr y_train
                        \<and> fit env (map fst X_train) y_train = Inr learner
                        \<and> predict env learner (map fst X_test) = Inr y_pred)
                    \<and> dom (res_evaluation_statistics res ! i) = set (tagset_of Y) \<union> {''system''}
                    \<and> (res_evaluation_statistics res ! i) ''system''
                        = Some \<lparr>recall = flat_recall_score env y_test y_pred (tagset_of Y),
                                 precision = flat_precision_score env y_test y_pred (tagset_of Y),
                                 f1 = flat_f1_score env y_test y_pred (tagset_of Y)\<rparr>
                    \<and> (\<forall>label \<in> set (tagset_of Y). label \<noteq> ''system'' \<longrightarrow>
                          (res_evaluation_statistics res ! i) label
                            = Some \<lparr>recall = flat_recall_score env y_test y_pred [label],
                                     precision = flat_precision_score env y_test y_pred [label],
                                     f1 = flat_f1_score env y_test y_pred [label]\<rparr>))"
      by - (rule exI [of _ X], rule exI [of _ Y], rule exI [of _ folds], simp)
  qed
qed

theorem tagset_derived_once_witness:
  "res_tagset (projr (fst example_run)) = [''Dose'', ''Drug'']
   \<and> (\<exists>evs. calls (snd example_run) = calls example_state @ evs
         \<and> (\<forall>labels. Score labels \<in> set evs \<longrightarrow>
               labels = [''Dose'', ''Drug''] \<or> labels = [''Dose''] \<or> labels = [''Drug'']))"
proof -
  note T = tagset_derived_once [OF example_run_returns]
  note A = T [THEN conjunct1]
  from cross_validate_rows [OF example_run_returns]
  obtain X Y folds where y: "y_data (snd example_run) = Some Y"
    and t: "res_tagset (projr (fst example_run)) = tagset_of Y"
    by (elim exE conjE) (rule that)
  from y have Y: "Y = [[''O'', ''Drug''], [''Dose''], [''Drug'', ''O''], [''O'']]"
    by (simp add: example_run_y_data)
  have t': "res_tagset (projr (fst example_run)) = [''Dose'', ''Drug'']"
    by (simp only: t Y example_tagset)
  from A obtain evs where c: "calls (snd example_run) = calls example_state @ evs"
    and s: "\<forall>labels. Score labels \<in> set evs \<longrightarrow>
                (\<exists>Y. y_data (snd example_run) = Some Y \<and> entities (snd example_run) = Some (tagset_of Y)
                   \<and> (labels = tagset_of Y \<or> (\<exists>label \<in> set (tagset_of Y). labels = [label])))"
    by blast
  have "labels = [''Dose'', ''Drug''] \<or> labels = [''Dose''] \<or> labels = [''Drug'']"
    if "Score labels \<in> set evs" for labels
  proof -
    from s that obtain Y' where y': "y_data (snd example_run) = Some Y'"
      and l: "labels = tagset_of Y' \<or> (\<exists>label \<in> set (tagset_of Y'). labels = [label])"
      by blast
    from y' have "Y' = [[''O'', ''Drug''], [''Dose''], [''Drug'', ''O''], [''O'']]"
      by (simp add: example_run_y_data)
    then have "tagset_of Y' = [''Dose'', ''Drug'']" by (simp only: example_tagset)
    with l show ?thesis by auto
  qed
  with c t' show ?thesis by blast
qed

section \<open>No extracted sequences\<close>

text \<open>
  C3. When the dataset has no file, nothing is extracted: \<^verbatim>\<open>X_data\<close> and
  \<^verbatim>\<open>y_data\<close> are empty lists, which are not \<^verbatim>\<open>None\<close>, so the assertion after
  \<^verbatim>\<open>preprocess\<close> passes and the splitter is called on the empty data. The claim
  asks for a failure before the split; the sibling method \<^verbatim>\<open>fit\<close> has the check
  that would give it (\<^verbatim>\<open>assert self.X_data, "Training data is empty."\<close>). What is
  proved is what the code does: for any number of folds above 1 the call to the splitter
  is made, with both attributes empty.
\<close>

theorem empty_extraction_reaches_split:
  assumes k: "1 < num_folds" and empty: "data_files ds = []"
  shows "\<exists>r st' evs.
           cross_validate env num_folds (Some ds) prediction_directory groundtruth_directory
             asynchronous st = (r, st')
         \<and> X_data st' = Some [] \<and> y_data st' = Some []
         \<and> calls st' = calls st @ Split # evs"
proof -
  obtain r st' where cv: "cross_validate env num_folds (Some ds) prediction_directory
      groundtruth_directory asynchronous st = (r, st')"
    by (cases "cross_validate env num_folds (Some ds) prediction_directory
      groundtruth_directory asynchronous st")
  let ?st0 = "st\<lparr>X_data := Some [], y_data := Some []\<rparr>"
  have pre: "preprocess env (Some ds) asynchronous st = (Inr (), ?st0)"
    using empty by (rule preprocess_no_files)
  have reached: "X_data st' = Some [] \<and> y_data st' = Some [] \<and> (\<exists>evs. calls st' = calls st @ Split # evs)"
    if st3: "st3 = ?st0\<lparr>entities := Some (tagset_of Y), calls := calls ?st0 @ [Split]\<rparr>"
      and eff: "X_data st' = X_data st3 \<and> y_data st' = y_data st3
                \<and> (\<exists>evs. calls st' = calls st3 @ evs)"
    for st3 :: "'a state" and Y
  proof -
    from eff obtain evs where "calls st' = calls st3 @ evs" by blast
    then have "calls st' = calls st @ Split # evs" by (simp add: st3)
    moreover have "X_data st' = Some []" "y_data st' = Some []" using eff by (simp_all add: st3)
    ultimately show ?thesis by blast
  qed
  have "X_data st' = Some [] \<and> y_data st' = Some [] \<and> (\<exists>evs. calls st' = calls st @ Split # evs)"
    using cv
  proof (cases rule: cross_validate_cases)
    case arguments
    with k show ?thesis by simp
  next
    case (extraction e)
    with pre show ?thesis by simp
  next
    case assertion
    with pre have "st' = ?st0" by simp
    with assertion(2) show ?thesis by simp
  next
    case (folds st1 X Y st3 r')
    from folds(2) pre have st1: "st1 = ?st0" by simp
    have "X_data st' = X_data st3 \<and> y_data st' = y_data st3 \<and> (\<exists>evs. calls st' = calls st3 @ evs)"
    proof (cases "split env num_folds X Y")
      case (Inl e)
      with folds(6) have "st' = st3" by simp
      then show ?thesis by simp
    next
      case (Inr fs)
      with folds(6) have "process_folds env X Y (tagset_of Y) prediction_directory
          groundtruth_directory fs 1 (empty_by_document X, empty_by_document X) [] st3
          = (Inl r', st')" by simp
      from process_folds_effect [OF this] show ?thesis by blast
    qed
    then have eff: "X_data st' = X_data st3 \<and> y_data st' = y_data st3 \<and> (\<exists>evs. calls st' = calls st3 @ evs)" .
    from folds(5) st1
    have "st3 = ?st0\<lparr>entities := Some (tagset_of Y), calls := calls ?st0 @ [Split]\<rparr>" by simp
    from reached [OF this eff] show ?thesis .
  next
    case (statistics st1 X Y st3 fs gt pr es e)
    from statistics(2) pre have st1: "st1 = ?st0" by simp
    from process_folds_effect [OF statistics(7)]
    have "X_data st' = X_data st3 \<and> y_data st' = y_data st3 \<and> (\<exists>evs. calls st' = calls st3 @ evs)"
      by blast
    then have eff: "X_data st' = X_data st3 \<and> y_data st' = y_data st3 \<and> (\<exists>evs. calls st' = calls st3 @ evs)" .
    from statistics(5) st1
    have "st3 = ?st0\<lparr>entities := Some (tagset_of Y), calls := calls ?st0 @ [Split]\<rparr>" by simp
    from reached [OF this eff] show ?thesis .
  next
    case (finished st1 X Y st3 fs gt pr es stats st4)
    from finished(2) pre have st1: "st1 = ?st0" by simp
    from process_folds_effect [OF finished(7)] finished(10)
    have "X_data st' = X_data st3 \<and> y_data st' = y_data st3 \<and> (\<exists>evs. calls st' = calls st3 @ evs)"
      by blast
    then have eff: "X_data st' = X_data st3 \<and> y_data st' = y_data st3 \<and> (\<exists>evs. calls st' = calls st3 @ evs)" .
    from finished(5) st1
    have "st3 = ?st0\<lparr>entities := Some (tagset_of Y), calls := calls ?st0 @ [Split]\<rparr>" by simp
    from reached [OF this eff] show ?thesis .
  next
    case (written st1 X Y st3 fs gt pr es stats st4 ds' rw)
    from written(2) pre have st1: "st1 = ?st0" by simp
    from process_folds_effect [OF written(7)] obtain evs where
      "X_data st4 = X_data st3" "y_data st4 = y_data st3" "calls st4 = calls st3 @ evs" by blast
    with write_cross_validation_effect [OF written(11)]
    have "X_data st' = X_data st3 \<and> y_data st' = y_data st3 \<and> (\<exists>evs. calls st' = calls st3 @ evs)"
      by simp
    then have eff: "X_data st' = X_data st3 \<and> y_data st' = y_data st3 \<and> (\<exists>evs. calls st' = calls st3 @ evs)" .
    from written(5) st1
    have "st3 = ?st0\<lparr>entities := Some (tagset_of Y), calls := calls ?st0 @ [Split]\<rparr>" by simp
    from reached [OF this eff] show ?thesis .
  qed
  with cv show ?thesis by blast
qed

theorem empty_extraction_reaches_split_witness:
  "raised (fst example_run_no_files) = Some IndexError
   \<and> X_data (snd example_run_no_files) = Some []
   \<and> y_data (snd example_run_no_files) = Some []
   \<and> (\<exists>evs. calls (snd example_run_no_files) = Split # evs)"
proof -
  have k: "(1::int) < 5" by simp
  have e: "data_files (example_dataset\<lparr>data_files := []\<rparr>) = []" by simp
  from empty_extraction_reaches_split [OF k e, of example_env NoneDir NoneDir False example_state]
  obtain r st' evs where
    run: "example_run_no_files = (r, st')"
    and X: "X_data st' = Some []" and y: "y_data st' = Some []"
    and c: "calls st' = calls example_state @ Split # evs"
    unfolding example_run_no_files_def by blast
  have "calls example_state = []" by (simp add: example_state_def)
  with c have "calls st' = Split # evs" by simp
  moreover have "raised (fst example_run_no_files) = Some IndexError" by code_simp
  ultimately show ?thesis using X y by (auto simp: run)
qed

section \<open>Statistics over all folds: minimum, mean and maximum\<close>

lemma foldl_max: "foldl max (x::real) xs = Max (set (x # xs))"
proof (induction xs arbitrary: x)
  case Nil
  then show ?case by simp
next
  case (Cons a xs)
  have "foldl max x (a # xs) = Max (set (max x a # xs))" by (simp add: Cons.IH)
  also have "\<dots> = max (max x a) (Max (set (a # xs)))"
    by (cases xs) (simp_all add: max.assoc max.left_commute)
  also have "\<dots> = Max (set (x # a # xs))"
    by (simp add: max.assoc)
  finally show ?case .
qed

lemma foldl_min: "foldl min (x::real) xs = Min (set (x # xs))"
proof (induction xs arbitrary: x)
  case Nil
  then show ?case by simp
next
  case (Cons a xs)
  have "foldl min x (a # xs) = Min (set (min x a # xs))" by (simp add: Cons.IH)
  also have "\<dots> = min (min x a) (Min (set (a # xs)))"
    by (cases xs) (simp_all add: min.assoc min.left_commute)
  also have "\<dots> = Min (set (x # a # xs))"
    by (simp add: min.assoc)
  finally show ?case .
qed

lemma py_max_Inr: "py_max xs = Inr m \<Longrightarrow> xs \<noteq> [] \<and> m = Max (set xs)"
  by (cases xs) (auto simp: py_max_def foldl_max simp del: foldl_Cons)

lemma py_min_Inr: "py_min xs = Inr m \<Longrightarrow> xs \<noteq> [] \<and> m = Min (set xs)"
  by (cases xs) (auto simp: py_min_def foldl_min simp del: foldl_Cons)

lemma py_mean_Inr:
  "py_mean rnd xs = Inr m \<Longrightarrow> xs \<noteq> [] \<and> m = rnd (sum_list xs / real (length xs))"
  by (auto simp: py_mean_def split: if_splits)

lemma sum_list_upper: "\<forall>x \<in> set xs. x \<le> (M::real) \<Longrightarrow> sum_list xs \<le> real (length xs) * M"
  by (induction xs) (auto simp: algebra_simps)

lemma sum_list_lower: "\<forall>x \<in> set xs. (m::real) \<le> x \<Longrightarrow> real (length xs) * m \<le> sum_list xs"
  by (induction xs) (auto simp: algebra_simps)

lemma mean_between:
  assumes "xs \<noteq> []"
  shows "Min (set xs) \<le> sum_list xs / real (length xs)
       \<and> sum_list xs / real (length xs) \<le> Max (set xs)"
proof -
  have pos: "0 < real (length xs)" using assms by simp
  have "\<forall>x \<in> set xs. x \<le> Max (set xs)" by simp
  from sum_list_upper [OF this] have u: "sum_list xs / real (length xs) \<le> Max (set xs)"
    using pos by (simp add: pos_divide_le_eq mult.commute)
  have "\<forall>x \<in> set xs. Min (set xs) \<le> x" by simp
  from sum_list_lower [OF this] have l: "Min (set xs) \<le> sum_list xs / real (length xs)"
    using pos by (simp add: pos_le_divide_eq mult.commute)
  from l u show ?thesis ..
qed

lemma rounded_mean_between:
  assumes ne: "xs \<noteq> []"
    and mono: "\<forall>x y. x \<le> y \<longrightarrow> rnd x \<le> rnd y"
    and fixed: "\<forall>x \<in> set xs. rnd x = (x::real)"
  shows "Min (set xs) \<le> rnd (sum_list xs / real (length xs))
       \<and> rnd (sum_list xs / real (length xs)) \<le> Max (set xs)"
proof -
  have mn: "Min (set xs) \<in> set xs" and mx: "Max (set xs) \<in> set xs"
    using ne by (simp_all add: Min_in Max_in)
  from mean_between [OF ne] mono
  have "rnd (Min (set xs)) \<le> rnd (sum_list xs / real (length xs))"
    and "rnd (sum_list xs / real (length xs)) \<le> rnd (Max (set xs))" by blast+
  with fixed mn mx show ?thesis by simp
qed

lemma collect_map:
  "collect (\<lambda>x. case g x of None \<Rightarrow> Inl KeyError | Some s \<Rightarrow> Inr (m s)) xs = Inr vs \<Longrightarrow>
   (\<forall>x \<in> set xs. g x \<noteq> None) \<and> vs = map (\<lambda>x. m (the (g x))) xs"
proof (induction xs arbitrary: vs)
  case Nil
  then show ?case by simp
next
  case (Cons x xs)
  from Cons.prems obtain s where s: "g x = Some s"
    by (auto simp: bindE_def split: option.splits sum.splits)
  from Cons.prems s obtain vs' where
    vs': "collect (\<lambda>x. case g x of None \<Rightarrow> Inl KeyError | Some s \<Rightarrow> Inr (m s)) xs = Inr vs'"
    and vs: "vs = m s # vs'"
    by (auto simp: bindE_def split: sum.splits)
  from Cons.IH [OF vs'] s vs show ?case by simp
qed

lemma fold_values_Inr:
  "fold_values metric label es = Inr vs \<Longrightarrow>
   (\<forall>fs \<in> set es. fs label \<noteq> None) \<and> vs = map (\<lambda>fs. metric (the (fs label))) es"
  unfolding fold_values_def by (rule collect_map)

lemma label_statistics_Inr:
  assumes "label_statistics rnd es label = Inr a"
  shows "es \<noteq> [] \<and> (\<forall>fs \<in> set es. fs label \<noteq> None)
       \<and> precision_average a = rnd (sum_list (map (\<lambda>fs. precision (the (fs label))) es) / real (length es))
       \<and> precision_max a = Max (set (map (\<lambda>fs. precision (the (fs label))) es))
       \<and> precision_min a = Min (set (map (\<lambda>fs. precision (the (fs label))) es))
       \<and> f1_average a = rnd (sum_list (map (\<lambda>fs. f1 (the (fs label))) es) / real (length es))
       \<and> f1_max a = Max (set (map (\<lambda>fs. f1 (the (fs label))) es))
       \<and> f1_min a = Min (set (map (\<lambda>fs. f1 (the (fs label))) es))"
proof -
  from assms obtain ps pa pmax pmin where
    ps: "fold_values precision label es = Inr ps"
    and pa: "py_mean rnd ps = Inr pa" and pmax: "py_max ps = Inr pmax" and pmin: "py_min ps = Inr pmin"
    by (auto simp: label_statistics_def bindE_def split: sum.splits)
  from assms ps pa pmax pmin obtain rs ra rmax where
    rs: "fold_values recall label es = Inr rs"
    and ra: "py_mean rnd rs = Inr ra" and rmax: "py_max rs = Inr rmax"
    by (auto simp: label_statistics_def bindE_def split: sum.splits)
  from assms ps pa pmax pmin rs ra rmax obtain fs fa fmax fmin where
    fs: "fold_values f1 label es = Inr fs"
    and fa: "py_mean rnd fs = Inr fa" and fmax: "py_max fs = Inr fmax" and fmin: "py_min fs = Inr fmin"
    by (auto simp: label_statistics_def bindE_def split: sum.splits)
  have a: "a = \<lparr>precision_average = pa, precision_max = pmax, precision_min = pmin,
            recall_average = ra, recall_max = rmax,
            f1_average = fa, f1_max = fmax, f1_min = fmin\<rparr>"
    using assms ps pa pmax pmin rs ra rmax fs fa fmax fmin
    by (simp add: label_statistics_def bindE_def)
  note P = fold_values_Inr [OF ps] and F = fold_values_Inr [OF fs]
  have len: "length ps = length es" "length fs = length es" using P F by simp_all
  have ne: "es \<noteq> []" using py_mean_Inr [OF pa] P by auto
  show ?thesis
    using ne P F py_mean_Inr [OF pa] py_max_Inr [OF pmax] py_min_Inr [OF pmin]
      py_mean_Inr [OF fa] py_max_Inr [OF fmax] py_min_Inr [OF fmin]
    by (simp add: a)
qed

lemma aggregate_labels_other:
  "aggregate_labels rnd es labels acc = Inr m \<Longrightarrow> l \<notin> set labels \<Longrightarrow> m l = acc l"
proof (induction labels arbitrary: acc)
  case Nil
  then show ?case by simp
next
  case (Cons label rest)
  from Cons.prems(1) obtain a0 where
    "aggregate_labels rnd es rest (acc(label \<mapsto> a0)) = Inr m"
    by (auto simp: bindE_def split: sum.splits)
  from Cons.IH [OF this] Cons.prems(2) show ?case by simp
qed

lemma aggregate_labels_member:
  "aggregate_labels rnd es labels acc = Inr m \<Longrightarrow> l \<in> set labels \<Longrightarrow>
   \<exists>a. m l = Some a \<and> label_statistics rnd es l = Inr a"
proof (induction labels arbitrary: acc)
  case Nil
  then show ?case by simp
next
  case (Cons label rest)
  from Cons.prems(1) obtain a0 where a0: "label_statistics rnd es label = Inr a0"
    and rec: "aggregate_labels rnd es rest (acc(label \<mapsto> a0)) = Inr m"
    by (auto simp: bindE_def split: sum.splits)
  show ?case
  proof (cases "l \<in> set rest")
    case True
    from Cons.IH [OF rec True] show ?thesis .
  next
    case False
    with Cons.prems(2) have l: "l = label" by simp
    from aggregate_labels_other [OF rec False] have "m l = Some a0" by (simp add: l)
    with a0 l show ?thesis by simp
  qed
qed

lemma cross_validate_statistics:
  assumes cv: "cross_validate env num_folds tds pd gd a st = (Inr res, st')"
  shows "statistics_all_folds_of (to_float env) (res_tagset res) (res_evaluation_statistics res)
           = Inr (res_statistics_all_folds res)"
  using cv
proof (cases rule: cross_validate_cases)
  case arguments
  then show ?thesis by simp
next
  case (extraction e)
  then show ?thesis by simp
next
  case assertion
  with cv show ?thesis
    by (auto simp: cross_validate_def split: if_splits option.splits)
next
  case (folds st1 X Y st3 r')
  then show ?thesis by simp
next
  case (statistics st1 X Y st3 fs gt pr es e)
  then show ?thesis by simp
next
  case (finished st1 X Y st3 fs gt pr es stats st4)
  from finished(11) finished(8) show ?thesis by auto
next
  case (written st1 X Y st3 fs gt pr es stats st4 ds rw)
  from written(12) written(8) show ?thesis by (auto split: sum.splits)
qed

lemma cross_validate_scores:
  assumes cv: "cross_validate env num_folds tds pd gd a st = (Inr res, st')"
    and fs: "fs \<in> set (res_evaluation_statistics res)"
  shows "\<exists>y_test y_pred. fs = fold_scores env (res_tagset res) y_test y_pred"
proof -
  from cross_validate_rows [OF cv] obtain X Y folds where
    t: "res_tagset res = tagset_of Y"
    and len: "length (res_evaluation_statistics res) = length folds"
    and rows: "\<forall>i < length folds.
                 fold_row env X Y (tagset_of Y) (folds ! i) (res_evaluation_statistics res ! i)"
    by (elim exE conjE) (rule that)
  from fs obtain i where i: "i < length (res_evaluation_statistics res)"
    "res_evaluation_statistics res ! i = fs" by (auto simp: in_set_conv_nth)
  with rows len have "fold_row env X Y (tagset_of Y) (folds ! i) fs" by auto
  then show ?thesis unfolding fold_row_def t by blast
qed

lemma fold_scores_value:
  assumes "fold_scores env T y_test y_pred label = Some s"
  shows "\<exists>labels. f1 s = flat_f1_score env y_test y_pred labels
                 \<and> precision s = flat_precision_score env y_test y_pred labels
                 \<and> recall s = flat_recall_score env y_test y_pred labels"
  using assms by (auto simp: fold_scores_def scores_of_def split: if_splits)

lemma example_run_f1_drug:
  "map (\<lambda>fs. f1 (the (fs ''Drug''))) (res_evaluation_statistics (projr (fst example_run)))
     = [2 / 5, 6 / 7]"
  by code_simp

text \<open>
  C6. When \<^verbatim>\<open>cross_validate\<close> returns, \<^verbatim>\<open>statistics_all_folds\<close> has an entry
  for every label of the tagset and for \<open>system\<close>; there is at least one fold and every
  fold has a row for the label; \<open>f1_min\<close>, \<open>f1_average\<close> and \<open>f1_max\<close> are the
  minimum, the mean (the exact mean rounded once, as \<^verbatim>\<open>statistics.mean\<close> does) and
  the maximum of the \<open>f1\<close> values of the label over the folds, and
  \<open>f1_min \<le> f1_average \<le> f1_max\<close>; the same holds for precision. The rounding is
  taken to be monotone and to leave the values of the metric functions, which are floats,
  unchanged.
\<close>

theorem aggregate_between_min_and_max:
  assumes cv: "cross_validate env num_folds training_dataset prediction_directory
                 groundtruth_directory asynchronous st = (Inr res, st')"
    and mono: "\<forall>x y. x \<le> y \<longrightarrow> to_float env x \<le> to_float env y"
    and fixed_f1: "\<forall>y_test y_pred labels.
        to_float env (flat_f1_score env y_test y_pred labels) = flat_f1_score env y_test y_pred labels"
    and fixed_precision: "\<forall>y_test y_pred labels.
        to_float env (flat_precision_score env y_test y_pred labels)
          = flat_precision_score env y_test y_pred labels"
    and label: "label \<in> set (res_tagset res) \<union> {''system''}"
  shows "\<exists>a. res_statistics_all_folds res label = Some a
       \<and> res_evaluation_statistics res \<noteq> []
       \<and> (\<forall>fs \<in> set (res_evaluation_statistics res). fs label \<noteq> None)
       \<and> f1_min a = Min (set (map (\<lambda>fs. f1 (the (fs label))) (res_evaluation_statistics res)))
       \<and> f1_average a = to_float env
            (sum_list (map (\<lambda>fs. f1 (the (fs label))) (res_evaluation_statistics res))
               / real (length (res_evaluation_statistics res)))
       \<and> f1_max a = Max (set (map (\<lambda>fs. f1 (the (fs label))) (res_evaluation_statistics res)))
       \<and> f1_min a \<le> f1_average a \<and> f1_average a \<le> f1_max a
       \<and> precision_min a
            = Min (set (map (\<lambda>fs. precision (the (fs label))) (res_evaluation_statistics res)))
       \<and> precision_average a = to_float env
            (sum_list (map (\<lambda>fs. precision (the (fs label))) (res_evaluation_statistics res))
               / real (length (res_evaluation_statistics res)))
       \<and> precision_max a
            = Max (set (map (\<lambda>fs. precision (the (fs label))) (res_evaluation_statistics res)))
       \<and> precision_min a \<le> precision_average a \<and> precision_average a \<le> precision_max a"
proof -
  let ?es = "res_evaluation_statistics res"
  let ?f = "map (\<lambda>fs. f1 (the (fs label))) ?es"
  let ?p = "map (\<lambda>fs. precision (the (fs label))) ?es"
  from label have "label \<in> set (res_tagset res @ [''system''])" by auto
  with cross_validate_statistics [OF cv] obtain a where
    a: "res_statistics_all_folds res label = Some a"
    and ls: "label_statistics (to_float env) ?es label = Inr a"
    unfolding statistics_all_folds_of_def using aggregate_labels_member by blast
  note L = label_statistics_Inr [OF ls]
  have ne: "?es \<noteq> []" by (rule L [THEN conjunct1])
  have dom: "\<forall>fs \<in> set ?es. fs label \<noteq> None" by (rule L [THEN conjunct2, THEN conjunct1])
  have fne: "?f \<noteq> []" and pne: "?p \<noteq> []" using ne by simp_all
  have fixf: "\<forall>x \<in> set ?f. to_float env x = x"
  proof
    fix x assume "x \<in> set ?f"
    then obtain fs where fs: "fs \<in> set ?es" and x: "x = f1 (the (fs label))" by auto
    from dom fs obtain s where s: "fs label = Some s" by auto
    from cross_validate_scores [OF cv fs] obtain y_test y_pred where
      "fs = fold_scores env (res_tagset res) y_test y_pred" by blast
    with s have "fold_scores env (res_tagset res) y_test y_pred label = Some s" by simp
    from fold_scores_value [OF this] obtain labels where
      "f1 s = flat_f1_score env y_test y_pred labels" by blast
    with fixed_f1 show "to_float env x = x" by (simp add: x s)
  qed
  have fixp: "\<forall>x \<in> set ?p. to_float env x = x"
  proof
    fix x assume "x \<in> set ?p"
    then obtain fs where fs: "fs \<in> set ?es" and x: "x = precision (the (fs label))" by auto
    from dom fs obtain s where s: "fs label = Some s" by auto
    from cross_validate_scores [OF cv fs] obtain y_test y_pred where
      "fs = fold_scores env (res_tagset res) y_test y_pred" by blast
    with s have "fold_scores env (res_tagset res) y_test y_pred label = Some s" by simp
    from fold_scores_value [OF this] obtain labels where
      "precision s = flat_precision_score env y_test y_pred labels" by blast
    with fixed_precision show "to_float env x = x" by (simp add: x s)
  qed
  note bf = rounded_mean_between [OF fne mono fixf]
  note bp = rounded_mean_between [OF pne mono fixp]
  have lf: "length ?f = length ?es" and lp: "length ?p = length ?es" by simp_all
  from L have vals:
    "precision_average a = to_float env (sum_list ?p / real (length ?es))"
    "precision_max a = Max (set ?p)" "precision_min a = Min (set ?p)"
    "f1_average a = to_float env (sum_list ?f / real (length ?es))"
    "f1_max a = Max (set ?f)" "f1_min a = Min (set ?f)"
    by simp_all
  have ineq: "f1_min a \<le> f1_average a" "f1_average a \<le> f1_max a"
    "precision_min a \<le> precision_average a" "precision_average a \<le> precision_max a"
    using bf bp unfolding vals lf lp by simp_all
  show ?thesis
    by (rule exI [of _ a], intro conjI)
       (fact a ne dom vals ineq)+
qed

theorem aggregate_between_min_and_max_witness:
  "\<exists>a. res_statistics_all_folds (projr (fst example_run)) ''Drug'' = Some a
     \<and> f1_min a = 2 / 5 \<and> f1_max a = 6 / 7
     \<and> f1_min a \<le> f1_average a \<and> f1_average a \<le> f1_max a
     \<and> precision_min a \<le> precision_average a \<and> precision_average a \<le> precision_max a"
proof -
  have mono: "\<forall>x y. x \<le> y \<longrightarrow> to_float example_env x \<le> to_float example_env y"
    by (simp add: example_env_def)
  have f: "\<forall>y_test y_pred labels.
        to_float example_env (flat_f1_score example_env y_test y_pred labels)
          = flat_f1_score example_env y_test y_pred labels"
    by (simp add: example_env_def)
  have p: "\<forall>y_test y_pred labels.
        to_float example_env (flat_precision_score example_env y_test y_pred labels)
          = flat_precision_score example_env y_test y_pred labels"
    by (simp add: example_env_def)
  have "res_tagset (projr (fst example_run)) = [''Dose'', ''Drug'']" by code_simp
  then have l: "''Drug'' \<in> set (res_tagset (projr (fst example_run))) \<union> {''system''}" by simp
  from aggregate_between_min_and_max [OF example_run_returns mono f p l]
  obtain a where a: "res_statistics_all_folds (projr (fst example_run)) ''Drug'' = Some a"
    and mn: "f1_min a = Min (set (map (\<lambda>fs. f1 (the (fs ''Drug'')))
                (res_evaluation_statistics (projr (fst example_run)))))"
    and mx: "f1_max a = Max (set (map (\<lambda>fs. f1 (the (fs ''Drug'')))
                (res_evaluation_statistics (projr (fst example_run)))))"
    and i: "f1_min a \<le> f1_average a" "f1_average a \<le> f1_max a"
      "precision_min a \<le> precision_average a" "precision_average a \<le> precision_max a"
    by (elim exE conjE) (rule that)
  have "f1_min a = 2 / 5" "f1_max a = 6 / 7"
    unfolding mn mx example_run_f1_drug by simp_all
  with a i show ?thesis by (intro exI [of _ a] conjI)
qed

section \<open>The annotation files\<close>





end
